theory Spec2Isabelle
  imports Complex_Main "HOL-Library.AList" "HOL-Library.Multiset"
begin

section \<open>Data model\<close>

text \<open>
  The notebook works on pandas data frames.  A cell of a frame read from a CSV file is a
  number, a string or the missing-value marker; a column (a pandas Series) is a list of
  cells and a frame is the list of its named columns, in column order.  Floating-point
  numbers are idealised as reals.
\<close>

datatype cell = Num real | Str string | NA

type_synonym series = "cell list"
type_synonym frame = "(string \<times> series) list"

text \<open>The exceptions of Python, pandas and numpy that the modelled code can raise.\<close>

datatype py_error =
  KeyError | ValueError | IndexError | ZeroDivisionError | TypeError | AttributeError
  | LibraryError

text \<open>
  The frame of feature importances built by
  \<^verbatim>\<open>pd.DataFrame(data={"feature_importance": xs}, index=columns)\<close>:
  its index and its single column.  An array of length one is repeated to the length
  of the index; for any other difference of the two lengths the constructor raises
  ValueError.
\<close>

type_synonym importances = "string list \<times> real list"

definition columns :: "frame \<Rightarrow> string list" where
  "columns df = map fst df"

definition importance_frame :: "real list \<Rightarrow> string list \<Rightarrow> py_error + importances" where
  "importance_frame xs idx =
     (if length xs = length idx then Inr (idx, xs)
      else if length xs = 1 then Inr (idx, replicate (length idx) (hd xs))
      else Inl ValueError)"

section \<open>Randomness, library calls and exceptions\<close>

text \<open>
  The random source of numpy is threaded through every call that draws from it
  (\<^verbatim>\<open>train_test_split\<close> and the fitting of a forest).  The world also keeps the
  sequence of these library calls, in call order.
\<close>

datatype event = TrainTestSplit | ForestFit

record 'r world =
  rng :: 'r
  trace :: "event list"

type_synonym ('a, 'r) prog = "'r world \<Rightarrow> (py_error + 'a) \<times> 'r world"

definition py_return :: "'a \<Rightarrow> ('a, 'r) prog" where
  "py_return x = (\<lambda>s. (Inr x, s))"

definition py_lift :: "py_error + 'a \<Rightarrow> ('a, 'r) prog" where
  "py_lift v = (\<lambda>s. (v, s))"

definition py_bind :: "('a, 'r) prog \<Rightarrow> ('a \<Rightarrow> ('b, 'r) prog) \<Rightarrow> ('b, 'r) prog" where
  "py_bind m f = (\<lambda>s. case m s of (Inl e, s') \<Rightarrow> (Inl e, s') | (Inr x, s') \<Rightarrow> f x s')"

text \<open>
  What the notebook takes from outside: the CSV reader, scikit-learn's splitter and
  random forest, and the bodies the exercise leaves blank (\<^verbatim>\<open># YOUR CODE\<close>):
  \<^verbatim>\<open>standardize_dataset\<close>, the training of the forest and the validation loss in
  \<^verbatim>\<open>random_forest_fit_predict\<close>.  \<open>'m\<close> is the type of a fitted forest.
\<close>

record ('r, 'm) library =
  read_csv :: "string \<Rightarrow> py_error + frame"
  standardize_dataset :: "frame \<Rightarrow> py_error + frame"
  sk_train_test_split ::
    "'r \<Rightarrow> frame \<Rightarrow> series \<Rightarrow> real \<Rightarrow> py_error + ((frame \<times> frame \<times> series \<times> series) \<times> 'r)"
  rf_fit :: "'r \<Rightarrow> int \<Rightarrow> int \<Rightarrow> frame \<Rightarrow> series \<Rightarrow> py_error + ('m \<times> 'r)"
  rf_score :: "'m \<Rightarrow> frame \<Rightarrow> series \<Rightarrow> py_error + real"
  rf_validation_loss :: "'m \<Rightarrow> frame \<Rightarrow> series \<Rightarrow> py_error + real"
  rf_feature_importances :: "'m \<Rightarrow> real list"

definition train_test_split ::
  "('r, 'm) library \<Rightarrow> frame \<Rightarrow> series \<Rightarrow> real \<Rightarrow> (frame \<times> frame \<times> series \<times> series, 'r) prog" where
  "train_test_split lib X y test_size = (\<lambda>s.
     case sk_train_test_split lib (rng s) X y test_size of
       Inl e \<Rightarrow> (Inl e, s\<lparr>trace := trace s @ [TrainTestSplit]\<rparr>)
     | Inr (parts, r') \<Rightarrow> (Inr parts, s\<lparr>rng := r', trace := trace s @ [TrainTestSplit]\<rparr>))"

definition forest_fit ::
  "('r, 'm) library \<Rightarrow> int \<Rightarrow> int \<Rightarrow> frame \<Rightarrow> series \<Rightarrow> ('m, 'r) prog" where
  "forest_fit lib n_estimators max_depth X y = (\<lambda>s.
     case rf_fit lib (rng s) n_estimators max_depth X y of
       Inl e \<Rightarrow> (Inl e, s\<lparr>trace := trace s @ [ForestFit]\<rparr>)
     | Inr (m, r') \<Rightarrow> (Inr m, s\<lparr>rng := r', trace := trace s @ [ForestFit]\<rparr>))"

section \<open>Training one forest\<close>

definition random_forest_fit_predict ::
  "('r, 'm) library \<Rightarrow> frame \<Rightarrow> frame \<Rightarrow> series \<Rightarrow> series \<Rightarrow> int \<Rightarrow> int
     \<Rightarrow> (real \<times> real \<times> importances, 'r) prog" where
  "random_forest_fit_predict lib X_train X_test y_train y_test n_estimators max_depth =
     py_bind (forest_fit lib n_estimators max_depth X_train y_train) (\<lambda>random_forest.
     py_bind (py_lift (rf_score lib random_forest X_train y_train)) (\<lambda>training_loss.
     py_bind (py_lift (rf_validation_loss lib random_forest X_test y_test)) (\<lambda>validation_loss.
     py_bind (py_lift (importance_frame (rf_feature_importances lib random_forest)
                         (columns X_train))) (\<lambda>feature_importances.
     py_return (training_loss, validation_loss, feature_importances)))))"

section \<open>Averaging over repeated fits\<close>

text \<open>
  \<^verbatim>\<open>total_feature_importances += xs\<close> on a one-dimensional numpy array: element-wise
  when the lengths agree, the single element added to every entry when \<open>xs\<close> has length
  one, ValueError otherwise.
\<close>

definition np_iadd :: "real list \<Rightarrow> real list \<Rightarrow> py_error + real list" where
  "np_iadd arr xs =
     (if length xs = length arr then Inr (map2 (+) arr xs)
      else if length xs = 1 then Inr (map (\<lambda>t. t + hd xs) arr)
      else Inl ValueError)"

text \<open>
  \<^verbatim>\<open>total / n\<close> for the scalar totals.  The totals start as the Python integer 0 and
  \<open>n\<close> is a Python integer: when \<open>n = 0\<close> the loop has not run, the total is still that
  integer and Python raises ZeroDivisionError.
\<close>

definition py_div :: "real \<Rightarrow> int \<Rightarrow> py_error + real" where
  "py_div x n = (if n = 0 then Inl ZeroDivisionError else Inr (x / real_of_int n))"

text \<open>The body of the \<^verbatim>\<open>for _ in range(n_iterations)\<close> loop, run \<open>n\<close> times.\<close>

primrec avg_fit_loop ::
  "('r, 'm) library \<Rightarrow> frame \<Rightarrow> frame \<Rightarrow> series \<Rightarrow> series \<Rightarrow> int \<Rightarrow> int \<Rightarrow> nat
     \<Rightarrow> real \<times> real \<times> real list \<Rightarrow> (real \<times> real \<times> real list, 'r) prog" where
  "avg_fit_loop lib X_train X_test y_train y_test n_estimators max_depth 0 totals =
     py_return totals"
| "avg_fit_loop lib X_train X_test y_train y_test n_estimators max_depth (Suc n) totals =
     py_bind (random_forest_fit_predict lib X_train X_test y_train y_test n_estimators max_depth)
       (\<lambda>(training_loss, validation_loss, feature_importances).
     py_bind (py_lift (np_iadd (snd (snd totals)) (snd feature_importances)))
       (\<lambda>total_feature_importances.
     avg_fit_loop lib X_train X_test y_train y_test n_estimators max_depth n
       (fst totals + training_loss, fst (snd totals) + validation_loss,
        total_feature_importances)))"

definition avg_random_forest_fit_predict ::
  "('r, 'm) library \<Rightarrow> frame \<Rightarrow> frame \<Rightarrow> series \<Rightarrow> series \<Rightarrow> int \<Rightarrow> int \<Rightarrow> int
     \<Rightarrow> (real \<times> real \<times> importances, 'r) prog" where
  "avg_random_forest_fit_predict lib X_train X_test y_train y_test n_estimators max_depth
       n_iterations =
     py_bind (avg_fit_loop lib X_train X_test y_train y_test n_estimators max_depth
                (nat n_iterations) (0, 0, replicate (length X_train) 0))
       (\<lambda>(total_training_loss, total_validation_loss, total_feature_importances).
     py_bind (py_lift (py_div total_training_loss n_iterations)) (\<lambda>avg_training_loss.
     py_bind (py_lift (py_div total_validation_loss n_iterations)) (\<lambda>avg_validation_loss.
     py_bind (py_lift (importance_frame
                         (map (\<lambda>t. t / real_of_int n_iterations) total_feature_importances)
                         (columns X_train))) (\<lambda>avg_feature_importances.
     py_return (avg_training_loss, avg_validation_loss, avg_feature_importances)))))"

section \<open>Averaging over repeated splits\<close>

text \<open>The body of the \<^verbatim>\<open>for _ in range(n_dataset_iterations)\<close> loop, run \<open>n\<close> times.\<close>

primrec multisplit_loop ::
  "('r, 'm) library \<Rightarrow> frame \<Rightarrow> series \<Rightarrow> int \<Rightarrow> int \<Rightarrow> int \<Rightarrow> nat
     \<Rightarrow> real \<times> real \<times> real list \<Rightarrow> (real \<times> real \<times> real list, 'r) prog" where
  "multisplit_loop lib X_train y_train n_estimators max_depth n_forest_iterations 0 totals =
     py_return totals"
| "multisplit_loop lib X_train y_train n_estimators max_depth n_forest_iterations (Suc n) totals =
     py_bind (train_test_split lib X_train y_train 0.2)
       (\<lambda>(X_train_local, X_val_local, y_train_local, y_val_local).
     py_bind (avg_random_forest_fit_predict lib X_train_local X_val_local y_train_local
                y_val_local n_estimators max_depth n_forest_iterations)
       (\<lambda>(training_loss, validation_loss, feature_importances).
     py_bind (py_lift (np_iadd (snd (snd totals)) (snd feature_importances)))
       (\<lambda>total_feature_importances.
     multisplit_loop lib X_train y_train n_estimators max_depth n_forest_iterations n
       (fst totals + training_loss, fst (snd totals) + validation_loss,
        total_feature_importances))))"

definition multisplit_avg_random_forest_fit_predict ::
  "('r, 'm) library \<Rightarrow> frame \<Rightarrow> series \<Rightarrow> int \<Rightarrow> int \<Rightarrow> int \<Rightarrow> int
     \<Rightarrow> (real \<times> real \<times> importances, 'r) prog" where
  "multisplit_avg_random_forest_fit_predict lib X_train y_train n_estimators max_depth
       n_forest_iterations n_dataset_iterations =
     py_bind (multisplit_loop lib X_train y_train n_estimators max_depth n_forest_iterations
                (nat n_dataset_iterations) (0, 0, replicate (length X_train) 0))
       (\<lambda>(total_training_loss, total_validation_loss, total_feature_importances).
     py_bind (py_lift (py_div total_training_loss n_dataset_iterations)) (\<lambda>avg_training_loss.
     py_bind (py_lift (py_div total_validation_loss n_dataset_iterations))
       (\<lambda>avg_validation_loss.
     py_bind (py_lift (importance_frame
                         (map (\<lambda>t. t / real_of_int n_dataset_iterations)
                            total_feature_importances)
                         (columns X_train))) (\<lambda>avg_feature_importances.
     py_return (avg_training_loss, avg_validation_loss, avg_feature_importances)))))"

section \<open>Loading and preprocessing\<close>

text \<open>
  \<^verbatim>\<open>df.replace(to_replace, value, inplace)\<close>: the value the method returns and the
  receiver after the call.  With \<open>inplace = False\<close> (the default) the receiver is left
  as it is and the changed frame is the returned value.
\<close>

definition replace_cells :: "cell \<Rightarrow> cell \<Rightarrow> frame \<Rightarrow> frame" where
  "replace_cells to_replace v df =
     map (\<lambda>(name, col). (name, map (\<lambda>c. if c = to_replace then v else c) col)) df"

definition df_replace :: "frame \<Rightarrow> cell \<Rightarrow> cell \<Rightarrow> bool \<Rightarrow> frame option \<times> frame" where
  "df_replace df to_replace v inplace =
     (if inplace then (None, replace_cells to_replace v df)
      else (Some (replace_cells to_replace v df), df))"

definition load_dataset :: "('r, 'm) library \<Rightarrow> string \<Rightarrow> py_error + frame" where
  "load_dataset lib file_path =
     (case read_csv lib file_path of
        Inl e \<Rightarrow> Inl e
      | Inr df0 \<Rightarrow> (let (unused, df) = df_replace df0 (Str ''NA'') NA False in Inr df))"

text \<open>
  \<^verbatim>\<open>dataset.median()\<close>: per column, the median of the values that are not missing
  (the middle one of the sorted values, or the mean of the two middle ones), missing
  when there is none; TypeError when a column holds strings.
\<close>

fun is_text :: "cell \<Rightarrow> bool" where
  "is_text (Str _) = True"
| "is_text _ = False"

fun numbers :: "series \<Rightarrow> real list" where
  "numbers [] = []"
| "numbers (Num x # col) = x # numbers col"
| "numbers (_ # col) = numbers col"

definition median_of :: "real list \<Rightarrow> cell" where
  "median_of xs =
     (if xs = [] then NA
      else let ys = sort xs; n = length ys in
        if odd n then Num (ys ! (n div 2))
        else Num ((ys ! (n div 2 - 1) + ys ! (n div 2)) / 2))"

definition series_median :: "series \<Rightarrow> py_error + cell" where
  "series_median col =
     (if list_ex is_text col then Inl TypeError else Inr (median_of (numbers col)))"

fun df_median :: "frame \<Rightarrow> py_error + (string \<times> cell) list" where
  "df_median [] = Inr []"
| "df_median ((name, col) # rest) =
     (case series_median col of
        Inl e \<Rightarrow> Inl e
      | Inr m \<Rightarrow> (case df_median rest of Inl e \<Rightarrow> Inl e | Inr ms \<Rightarrow> Inr ((name, m) # ms)))"

text \<open>
  \<^verbatim>\<open>dataset.fillna(values)\<close> with a Series of fill values indexed by column name: in
  each column that has a fill value which is not itself missing, the missing cells take
  that value; every other cell is kept.
\<close>

definition fillna_series :: "cell \<Rightarrow> series \<Rightarrow> series" where
  "fillna_series v col = (if v = NA then col else map (\<lambda>c. if c = NA then v else c) col)"

definition fillna :: "frame \<Rightarrow> (string \<times> cell) list \<Rightarrow> frame" where
  "fillna df fill_values =
     map (\<lambda>(name, col).
            (name, case map_of fill_values name of None \<Rightarrow> col | Some v \<Rightarrow> fillna_series v col))
       df"

definition impute_dataset :: "frame \<Rightarrow> py_error + frame" where
  "impute_dataset dataset =
     (case df_median dataset of Inl e \<Rightarrow> Inl e | Inr med \<Rightarrow> Inr (fillna dataset med))"

text \<open>
  \<^verbatim>\<open>dataset.ldl_cholesterin_reduction\<close> raises AttributeError when there is no such
  column; \<^verbatim>\<open>dataset.drop(labels=..., axis=1)\<close> raises KeyError when a label is not a
  column.
\<close>

definition redundant_features :: "string list" where
  "redundant_features =
     [''arterial_stiffness'', ''waist_hip_ratio'', ''diet_energy'', ''diet_mediterenian_score'',
      ''blood_pressure_systolic'', ''diet_carb'', ''diet_unsaturated_fat'',
      ''blood_ldl_cholesterol'', ''blood_hdl_cholesterol'', ''ldl_cholesterin_reduction'']"

definition get_column :: "frame \<Rightarrow> string \<Rightarrow> py_error + series" where
  "get_column df name = (case map_of df name of None \<Rightarrow> Inl AttributeError | Some col \<Rightarrow> Inr col)"

definition df_drop :: "frame \<Rightarrow> string list \<Rightarrow> py_error + frame" where
  "df_drop df labels =
     (if list_all (\<lambda>l. l \<in> set (columns df)) labels
      then Inr (filter (\<lambda>c. fst c \<notin> set labels) df)
      else Inl KeyError)"

definition remove_redundant_features :: "frame \<Rightarrow> py_error + (series \<times> frame)" where
  "remove_redundant_features dataset =
     (case get_column dataset ''ldl_cholesterin_reduction'' of
        Inl e \<Rightarrow> Inl e
      | Inr labels \<Rightarrow>
          (case df_drop dataset redundant_features of
             Inl e \<Rightarrow> Inl e
           | Inr dataset_wo_redundancy \<Rightarrow> Inr (labels, dataset_wo_redundancy)))"

definition preprocess_dataset :: "('r, 'm) library \<Rightarrow> frame \<Rightarrow> py_error + (series \<times> frame)" where
  "preprocess_dataset lib dataset =
     (case impute_dataset dataset of
        Inl e \<Rightarrow> Inl e
      | Inr dataset_imputed \<Rightarrow>
          (case standardize_dataset lib dataset_imputed of
             Inl e \<Rightarrow> Inl e
           | Inr dataset_standardized \<Rightarrow> remove_redundant_features dataset_standardized))"

section \<open>Iteratively dropping the least important feature\<close>

text \<open>
  The list and dictionary operations of the loop, with their exceptions:
  \<^verbatim>\<open>X_train[feature_names]\<close> (KeyError for a name that is not a column),
  \<^verbatim>\<open>np.argmin\<close> (the first index of the least value; ValueError on an empty
  sequence), \<^verbatim>\<open>xs[i]\<close>, \<^verbatim>\<open>xs.remove(x)\<close> (the first occurrence; ValueError when
  absent) and \<^verbatim>\<open>d[k].append(v)\<close>.  A dictionary is an association list in insertion
  order.
\<close>

type_synonym drop_record = "(string \<times> nat list) list"

definition select_columns :: "frame \<Rightarrow> string list \<Rightarrow> py_error + frame" where
  "select_columns df names =
     (if list_all (\<lambda>n. n \<in> set (columns df)) names
      then Inr (concat (map (\<lambda>n. filter (\<lambda>c. fst c = n) df) names))
      else Inl KeyError)"

fun first_min_index :: "real list \<Rightarrow> nat" where
  "first_min_index [] = 0"
| "first_min_index [x] = 0"
| "first_min_index (x # y # ys) =
     (let i = first_min_index (y # ys) in if x \<le> (y # ys) ! i then 0 else Suc i)"

definition np_argmin :: "real list \<Rightarrow> py_error + nat" where
  "np_argmin xs = (if xs = [] then Inl ValueError else Inr (first_min_index xs))"

definition list_get :: "'a list \<Rightarrow> nat \<Rightarrow> py_error + 'a" where
  "list_get xs i = (if i < length xs then Inr (xs ! i) else Inl IndexError)"

definition list_remove :: "'a list \<Rightarrow> 'a \<Rightarrow> py_error + 'a list" where
  "list_remove xs x = (if x \<in> set xs then Inr (remove1 x xs) else Inl ValueError)"

definition dict_append :: "drop_record \<Rightarrow> string \<Rightarrow> nat \<Rightarrow> py_error + drop_record" where
  "dict_append d k v =
     (case map_of d k of None \<Rightarrow> Inl KeyError | Some l \<Rightarrow> Inr (AList.update k (l @ [v]) d))"

definition dict_from_keys :: "string list \<Rightarrow> drop_record" where
  "dict_from_keys ks = foldl (\<lambda>d k. AList.update k [] d) [] ks"

text \<open>
  The variables of the \<^verbatim>\<open>while\<close> loop.  An entry of \<open>results\<close> holds the two losses of
  a round; its third component in the source is a reference to the list
  \<open>feature_names\<close> itself, and \<open>results\<close> is never read.
\<close>

record loop_state =
  results :: "(real \<times> real) list"
  feature_names :: "string list"
  feature_drop_iterations :: drop_record

text \<open>The variables as they are set up before the loop (lines 766 to 768 of the notebook).\<close>

definition initial_state :: "frame \<Rightarrow> loop_state" where
  "initial_state X_train =
     \<lparr>results = [], feature_names = columns X_train,
      feature_drop_iterations = dict_from_keys (columns X_train)\<rparr>"

text \<open>One round: the body of the \<^verbatim>\<open>while\<close> loop.\<close>

definition drop_round ::
  "('r, 'm) library \<Rightarrow> frame \<Rightarrow> series \<Rightarrow> loop_state \<Rightarrow> (loop_state, 'r) prog" where
  "drop_round lib X_train y_train st =
     py_bind (py_lift (select_columns X_train (feature_names st))) (\<lambda>X_active.
     py_bind (multisplit_avg_random_forest_fit_predict lib X_active y_train 20 1 5 5)
       (\<lambda>(training_loss, validation_loss, feature_importances).
     py_bind (py_lift (np_argmin (snd feature_importances))) (\<lambda>i.
     py_bind (py_lift (list_get (feature_names st) i)) (\<lambda>least_important_feature.
     py_bind (py_lift (list_remove (feature_names st) least_important_feature))
       (\<lambda>feature_names'.
     py_bind (py_lift (dict_append (feature_drop_iterations st) least_important_feature
                         (length feature_names'))) (\<lambda>feature_drop_iterations'.
     py_return \<lparr>results = results st @ [(training_loss, validation_loss)],
                feature_names = feature_names',
                feature_drop_iterations = feature_drop_iterations'\<rparr>))))))"

function drop_loop ::
  "('r, 'm) library \<Rightarrow> frame \<Rightarrow> series \<Rightarrow> loop_state \<Rightarrow> (loop_state, 'r) prog" where
  "drop_loop lib X_train y_train st s =
     (if length (feature_names st) \<ge> 1
      then (case drop_round lib X_train y_train st s of
              (Inl e, s') \<Rightarrow> (Inl e, s')
            | (Inr st', s') \<Rightarrow> drop_loop lib X_train y_train st' s')
      else (Inr st, s))"
  by pat_completeness auto
termination
  apply (relation "measure (\<lambda>(lib, X_train, y_train, st, s). length (feature_names st))")
   apply simp
  apply (auto simp: drop_round_def py_bind_def py_lift_def py_return_def list_remove_def
      length_remove1 split: sum.splits prod.splits if_splits)
  done

text \<open>The body of the loop run \<open>n\<close> times, whatever the loop condition says.\<close>

primrec drop_rounds ::
  "('r, 'm) library \<Rightarrow> frame \<Rightarrow> series \<Rightarrow> nat \<Rightarrow> loop_state \<Rightarrow> (loop_state, 'r) prog" where
  "drop_rounds lib X_train y_train 0 st = py_return st"
| "drop_rounds lib X_train y_train (Suc n) st =
     py_bind (drop_round lib X_train y_train st) (drop_rounds lib X_train y_train n)"

definition drop_feature_experiment :: "('r, 'm) library \<Rightarrow> (drop_record, 'r) prog" where
  "drop_feature_experiment lib =
     py_bind (py_lift (load_dataset lib ''responder.csv'')) (\<lambda>dataset.
     py_bind (py_lift (preprocess_dataset lib dataset)) (\<lambda>(labels, dataset_preprocessed).
     py_bind (train_test_split lib dataset_preprocessed labels 0.2)
       (\<lambda>(X_train, X_test, y_train, y_test).
     py_bind (drop_loop lib X_train y_train (initial_state X_train)) (\<lambda>st.
     py_return (feature_drop_iterations st)))))"

section \<open>Repeating the experiment\<close>

text \<open>
  The inner loop over \<^verbatim>\<open>curr_feature_drop_iterations.items()\<close>: a feature already
  present has the run's values appended (\<^verbatim>\<open>extend\<close>), a new one is entered with the
  run's list.
\<close>

fun merge_items :: "drop_record \<Rightarrow> drop_record \<Rightarrow> drop_record" where
  "merge_items feature_drop_counts [] = feature_drop_counts"
| "merge_items feature_drop_counts ((feature, iteration) # items) =
     merge_items
       (case map_of feature_drop_counts feature of
          Some l \<Rightarrow> AList.update feature (l @ iteration) feature_drop_counts
        | None \<Rightarrow> AList.update feature iteration feature_drop_counts)
       items"

primrec avg_drop_loop ::
  "('r, 'm) library \<Rightarrow> nat \<Rightarrow> drop_record \<Rightarrow> (drop_record, 'r) prog" where
  "avg_drop_loop lib 0 feature_drop_counts = py_return feature_drop_counts"
| "avg_drop_loop lib (Suc n) feature_drop_counts =
     py_bind (drop_feature_experiment lib) (\<lambda>curr_feature_drop_iterations.
     avg_drop_loop lib n (merge_items feature_drop_counts curr_feature_drop_iterations))"

definition avg_drop_feature_experiment :: "('r, 'm) library \<Rightarrow> int \<Rightarrow> (drop_record, 'r) prog" where
  "avg_drop_feature_experiment lib n_runs = avg_drop_loop lib (nat n_runs) []"

section \<open>Notions used in the statements\<close>

text \<open>
  A library all of whose calls succeed: the splitter returns a training part with the
  columns of its input, a fitted forest reports one importance per column of its
  training frame, and scoring does not raise.  It is used to show that runs which return
  exist; what a run that returns has done is proved for every library.
\<close>

definition lib_ok :: "('r, 'm) library \<Rightarrow> bool" where
  "lib_ok lib \<longleftrightarrow>
     (\<forall>r X y t. \<exists>X_a X_b y_a y_b r'.
        sk_train_test_split lib r X y t = Inr ((X_a, X_b, y_a, y_b), r') \<and> columns X_a = columns X)
   \<and> (\<forall>r ne md X y. \<exists>m r'.
        rf_fit lib r ne md X y = Inr (m, r') \<and> length (rf_feature_importances lib m) = length X)
   \<and> (\<forall>m X y. \<exists>v. rf_score lib m X y = Inr v)
   \<and> (\<forall>m X y. \<exists>v. rf_validation_loss lib m X y = Inr v)"

text \<open>
  The library calls of one round of the elimination loop, in call order: five times a
  split followed by the five fits of one averaged fit.
\<close>

definition round_events :: "event list" where
  "round_events = concat (replicate 5 (TrainTestSplit # replicate 5 ForestFit))"

text \<open>
  What holds of the loop variables before and after every round, for the columns
  \<open>cols\<close> the loop started with: the active features are distinct columns and have
  nothing recorded, every other column has exactly one recorded value, the recorded
  values are the numbers from the current count of active features up to the number of
  columns, and there is one entry of \<open>results\<close> per dropped feature.
\<close>

definition loop_inv :: "string list \<Rightarrow> loop_state \<Rightarrow> bool" where
  "loop_inv cols st \<longleftrightarrow>
     distinct cols \<and> distinct (feature_names st) \<and> set (feature_names st) \<subseteq> set cols
   \<and> map fst (feature_drop_iterations st) = cols
   \<and> (\<forall>f\<in>set (feature_names st). map_of (feature_drop_iterations st) f = Some [])
   \<and> (\<forall>f\<in>set cols - set (feature_names st).
         \<exists>c. map_of (feature_drop_iterations st) f = Some [c])
   \<and> mset (concat (map snd (feature_drop_iterations st)))
       = mset [length (feature_names st)..<length cols]
   \<and> length (results st) + length (feature_names st) = length cols"

text \<open>
  The number of calls of \<^verbatim>\<open>train_test_split\<close> in a sequence of library calls, and
  the number of such calls made by one run of the \<^verbatim>\<open>while\<close> loop.
\<close>

definition split_calls :: "event list \<Rightarrow> nat" where
  "split_calls tr = length (filter (\<lambda>e. e = TrainTestSplit) tr)"

definition local_split_calls ::
  "('r, 'm) library \<Rightarrow> frame \<Rightarrow> series \<Rightarrow> 'r world \<Rightarrow> nat" where
  "local_split_calls lib X_train y_train s =
     split_calls (drop (length (trace s))
       (trace (snd (drop_loop lib X_train y_train (initial_state X_train) s))))"

text \<open>
  A chain of re-splits of the data \<open>(X, y)\<close>, from the world \<open>s\<close> to the world \<open>s'\<close>:
  for every partition of the list in turn, \<^verbatim>\<open>train_test_split\<close> is called on
  \<open>(X, y)\<close> with the given test size and returns this partition, and
  \<^verbatim>\<open>avg_random_forest_fit_predict\<close> is then called on the four parts of this partition
  and returns; each call starts in the world the call before it has left, and no other
  library call is made in between.
\<close>

fun resplit_chain ::
  "('r, 'm) library \<Rightarrow> frame \<Rightarrow> series \<Rightarrow> real \<Rightarrow> int \<Rightarrow> int \<Rightarrow> int \<Rightarrow> 'r world
     \<Rightarrow> (frame \<times> frame \<times> series \<times> series) list \<Rightarrow> 'r world \<Rightarrow> bool" where
  "resplit_chain lib X y test_size n_estimators max_depth n_fits s [] s' \<longleftrightarrow> s' = s"
| "resplit_chain lib X y test_size n_estimators max_depth n_fits s
     ((X_a, X_b, y_a, y_b) # parts) s' \<longleftrightarrow>
     (\<exists>s_split fitted s_fit.
        train_test_split lib X y test_size s = (Inr (X_a, X_b, y_a, y_b), s_split)
      \<and> trace s_split = trace s @ [TrainTestSplit]
      \<and> avg_random_forest_fit_predict lib X_a X_b y_a y_b n_estimators max_depth n_fits s_split
          = (Inr fitted, s_fit)
      \<and> trace s_fit = trace s_split @ replicate (nat n_fits) ForestFit
      \<and> resplit_chain lib X y test_size n_estimators max_depth n_fits s_fit parts s')"

text \<open>
  A table is numeric when no column holds a string.  \<open>fill_missing_with_median\<close> is
  the column that \<^verbatim>\<open>fillna\<close> builds from a column and the value computed for it by
  \<^verbatim>\<open>median\<close>.
\<close>

definition numeric_frame :: "frame \<Rightarrow> bool" where
  "numeric_frame df = list_all (\<lambda>(name, col). \<not> list_ex is_text col) df"

definition fill_missing_with_median :: "series \<Rightarrow> series" where
  "fill_missing_with_median col =
     map (\<lambda>c. if c = NA then median_of (numbers col) else c) col"

text \<open>
  Imputation by the column median, as the specification words it, said of a column and
  the column that takes its place.  Both have the same length and every cell that is not
  missing is kept, so a column without missing cells is unchanged.  A column without any
  value is unchanged as well: its cells stay missing.  Otherwise all missing cells take
  one value \<open>m\<close>, the median of the values \<open>ys\<close> of the column that are not missing:
  with \<open>ys\<close> in ascending order, the middle one when their number is odd and the mean of
  the two middle ones when it is even; at most half of the values are smaller and at most
  half are greater than \<open>m\<close>.
\<close>

definition median_imputed :: "series \<Rightarrow> series \<Rightarrow> bool" where
  "median_imputed col col' \<longleftrightarrow>
     length col' = length col
   \<and> (\<forall>i<length col. col ! i \<noteq> NA \<longrightarrow> col' ! i = col ! i)
   \<and> (NA \<notin> set col \<longrightarrow> col' = col)
   \<and> ((\<forall>c\<in>set col. c = NA) \<longrightarrow> col' = col)
   \<and> ((\<exists>c\<in>set col. c \<noteq> NA) \<longrightarrow>
        (\<exists>ys m. sorted ys
           \<and> mset (map Num ys) = mset (filter (\<lambda>c. c \<noteq> NA) col)
           \<and> m = (if odd (length ys) then ys ! (length ys div 2)
                  else (ys ! (length ys div 2 - 1) + ys ! (length ys div 2)) / 2)
           \<and> 2 * length (filter (\<lambda>x. x < m) ys) \<le> length ys
           \<and> 2 * length (filter (\<lambda>x. m < x) ys) \<le> length ys
           \<and> (\<forall>i<length col. col ! i = NA \<longrightarrow> col' ! i = Num m)))"

text \<open>
  The records returned by \<open>n\<close> successive runs of the experiment, in run order, and the
  values a record holds for a feature (none when the feature is not a key).
\<close>

primrec experiment_runs :: "('r, 'm) library \<Rightarrow> nat \<Rightarrow> 'r world \<Rightarrow> drop_record list" where
  "experiment_runs lib 0 s = []"
| "experiment_runs lib (Suc n) s =
     (case drop_feature_experiment lib s of
        (Inl e, s') \<Rightarrow> []
      | (Inr d, s') \<Rightarrow> d # experiment_runs lib n s')"

definition lookup_values :: "drop_record \<Rightarrow> string \<Rightarrow> nat list" where
  "lookup_values d f = (case map_of d f of None \<Rightarrow> [] | Some l \<Rightarrow> l)"

text \<open>
  The splitter keeps the columns: whenever it returns, the training part has the columns
  of its input.
\<close>

definition split_keeps_columns :: "('r, 'm) library \<Rightarrow> bool" where
  "split_keeps_columns lib \<longleftrightarrow>
     (\<forall>r X y t X_a X_b y_a y_b r'.
        sk_train_test_split lib r X y t = Inr ((X_a, X_b, y_a, y_b), r')
          \<longrightarrow> columns X_a = columns X)"

section \<open>A small library and data set\<close>

text \<open>
  A table with the ten redundant columns and the given further features, three rows and
  one missing cell per column; a library that reads it, splits off the first row for
  validation and reports importances that depend on the column name only.
\<close>

definition demo_table :: "string list \<Rightarrow> frame" where
  "demo_table features = map (\<lambda>name. (name, [Num 1, NA, Num 3])) (redundant_features @ features)"

definition demo_lib :: "string list \<Rightarrow> (nat, real list) library" where
  "demo_lib features =
     \<lparr>read_csv = (\<lambda>file_path. if file_path = ''responder.csv''
                               then Inr (demo_table features) else Inl LibraryError),
      standardize_dataset = Inr,
      sk_train_test_split = (\<lambda>r X y test_size.
        Inr ((map (\<lambda>(name, col). (name, drop 1 col)) X,
              map (\<lambda>(name, col). (name, take 1 col)) X, drop 1 y, take 1 y), Suc r)),
      rf_fit = (\<lambda>r n_estimators max_depth X y.
        Inr (map (\<lambda>(name, col). 1 / real (Suc (length name))) X, Suc r)),
      rf_score = (\<lambda>m X y. Inr 1),
      rf_validation_loss = (\<lambda>m X y. Inr 0),
      rf_feature_importances = (\<lambda>m. m)\<rparr>"

definition demo_world :: "nat world" where
  "demo_world = \<lparr>rng = 0, trace = []\<rparr>"

definition demo_labels :: series where
  "demo_labels = [Num 1, Num 2, Num 3]"

definition demo_features :: frame where
  "demo_features = [(''age'', [Num 1, Num 2, Num 3]), (''sex'', [Num 1, Num 2, Num 3])]"

text \<open>What the small library's splitter returns for the preprocessed demo table.\<close>

definition demo_X_train :: frame where
  "demo_X_train = [(''age'', [Num 2, Num 3]), (''sex'', [Num 2, Num 3])]"

definition demo_X_test :: frame where
  "demo_X_test = [(''age'', [Num 1]), (''sex'', [Num 1])]"

definition demo_world_split :: "nat world" where
  "demo_world_split = \<lparr>rng = 1, trace = [TrainTestSplit]\<rparr>"

declare drop_loop.simps [simp del]

section \<open>Properties of the averaging\<close>

lemma map2_add_zeros:
  "length xs = n \<Longrightarrow> map2 (+) (replicate n (0::real)) xs = xs"
proof (induction xs arbitrary: n)
  case Nil
  then show ?case by simp
next
  case (Cons x xs)
  then obtain m where "n = Suc m" by (cases n) auto
  with Cons show ?case by simp
qed

text \<open>
  C10: with \<open>n_iterations = 0\<close> the loop body is never run (the world, and with it the
  sequence of library calls, is unchanged) and the first averaging division raises
  ZeroDivisionError.
\<close>

theorem avg_zero_iterations_raises:
  "avg_random_forest_fit_predict lib X_train X_test y_train y_test n_estimators max_depth 0 s
     = (Inl ZeroDivisionError, s)"
  by (simp add: avg_random_forest_fit_predict_def py_bind_def py_return_def py_lift_def
      py_div_def)

text \<open>
  C6: with \<open>n_iterations = 1\<close> the averaged fit is exactly one call of
  \<open>random_forest_fit_predict\<close> on the same inputs from the same world (the same random
  source): the same losses and importances, the same exception if the fit raises, and
  the same world afterwards.
\<close>

theorem avg_one_iteration_is_single_fit:
  "avg_random_forest_fit_predict lib X_train X_test y_train y_test n_estimators max_depth 1 s
     = random_forest_fit_predict lib X_train X_test y_train y_test n_estimators max_depth s"
proof (cases "random_forest_fit_predict lib X_train X_test y_train y_test n_estimators
                max_depth s")
  case (Pair res s')
  show ?thesis
  proof (cases res)
    case (Inl e)
    with Pair show ?thesis
      by (simp add: avg_random_forest_fit_predict_def py_bind_def)
  next
    case (Inr out)
    obtain tl vl idx imps where out: "out = (tl, vl, (idx, imps))"
      by (cases out) auto
    from Pair Inr out have shape: "idx = columns X_train \<and> length imps = length X_train"
      by (auto simp: random_forest_fit_predict_def py_bind_def py_lift_def py_return_def
          importance_frame_def columns_def split: sum.splits prod.splits if_splits)
    with Pair Inr out show ?thesis
      by (simp add: avg_random_forest_fit_predict_def py_bind_def py_lift_def py_return_def
          np_iadd_def py_div_def importance_frame_def columns_def map2_add_zeros)
  qed
qed

section \<open>What a call that returns has done\<close>

lemma forest_fit_trace:
  "forest_fit lib ne md X y s = (res, s') \<Longrightarrow> trace s' = trace s @ [ForestFit]"
  by (auto simp: forest_fit_def split: sum.splits prod.splits)

lemma train_test_split_trace:
  "train_test_split lib X y t s = (res, s') \<Longrightarrow> trace s' = trace s @ [TrainTestSplit]"
  by (auto simp: train_test_split_def split: sum.splits prod.splits)

lemma random_forest_fit_predict_returns:
  assumes "random_forest_fit_predict lib X X_t y y_t ne md s = (Inr (tr_loss, va_loss, (idx, imps)), s')"
  shows "trace s' = trace s @ [ForestFit]" and "idx = columns X" and "length imps = length X"
proof -
  from assms obtain m where fit: "forest_fit lib ne md X y s = (Inr m, s')"
    and imp: "importance_frame (rf_feature_importances lib m) (columns X) = Inr (idx, imps)"
    by (auto simp: random_forest_fit_predict_def py_bind_def py_lift_def py_return_def
        split: sum.splits prod.splits)
  from fit show "trace s' = trace s @ [ForestFit]" by (rule forest_fit_trace)
  from imp show "idx = columns X" and "length imps = length X"
    by (auto simp: importance_frame_def columns_def split: if_splits)
qed

lemma np_iadd_length: "np_iadd arr xs = Inr arr' \<Longrightarrow> length arr' = length arr"
  by (auto simp: np_iadd_def split: if_splits)

lemma avg_fit_loop_returns:
  "avg_fit_loop lib X X_t y y_t ne md n totals s = (Inr tot, s')
     \<Longrightarrow> trace s' = trace s @ replicate n ForestFit
       \<and> length (snd (snd tot)) = length (snd (snd totals))"
proof (induction n arbitrary: totals s)
  case 0
  then show ?case by (simp add: py_return_def)
next
  case (Suc n)
  from Suc.prems obtain tr_loss va_loss idx imps s1 arr where
    fit: "random_forest_fit_predict lib X X_t y y_t ne md s = (Inr (tr_loss, va_loss, (idx, imps)), s1)"
    and add: "np_iadd (snd (snd totals)) imps = Inr arr"
    and rest: "avg_fit_loop lib X X_t y y_t ne md n
                 (fst totals + tr_loss, fst (snd totals) + va_loss, arr) s1 = (Inr tot, s')"
    by (auto simp: py_bind_def py_lift_def split: sum.splits prod.splits)
  from Suc.IH [OF rest] have "trace s' = trace s1 @ replicate n ForestFit"
    and "length (snd (snd tot)) = length arr" by simp_all
  moreover from fit have "trace s1 = trace s @ [ForestFit]"
    by (rule random_forest_fit_predict_returns)
  moreover from add have "length arr = length (snd (snd totals))"
    by (rule np_iadd_length)
  ultimately show ?case by (simp add: replicate_append_same)
qed

lemma avg_random_forest_fit_predict_returns:
  assumes "avg_random_forest_fit_predict lib X X_t y y_t ne md n s
             = (Inr (tr_loss, va_loss, (idx, imps)), s')"
  shows "trace s' = trace s @ replicate (nat n) ForestFit"
    and "idx = columns X" and "length imps = length X"
proof -
  from assms obtain tot where
    loop: "avg_fit_loop lib X X_t y y_t ne md (nat n) (0, 0, replicate (length X) 0) s
             = (Inr tot, s')"
    and imp: "importance_frame (map (\<lambda>t. t / real_of_int n) (snd (snd tot))) (columns X)
                = Inr (idx, imps)"
    by (auto simp: avg_random_forest_fit_predict_def py_bind_def py_lift_def py_return_def
        split: sum.splits prod.splits)
  from avg_fit_loop_returns [OF loop] show "trace s' = trace s @ replicate (nat n) ForestFit"
    by simp
  from imp show "idx = columns X" and "length imps = length X"
    by (auto simp: importance_frame_def columns_def split: if_splits)
qed

lemma multisplit_loop_returns:
  "multisplit_loop lib X y ne md nf n totals s = (Inr tot, s')
     \<Longrightarrow> trace s' = trace s @ concat (replicate n (TrainTestSplit # replicate (nat nf) ForestFit))"
proof (induction n arbitrary: totals s)
  case 0
  then show ?case by (simp add: py_return_def)
next
  case (Suc n)
  from Suc.prems obtain X_a X_b y_a y_b s1 tr_loss va_loss idx imps s2 arr where
    split: "train_test_split lib X y 0.2 s = (Inr (X_a, X_b, y_a, y_b), s1)"
    and fit: "avg_random_forest_fit_predict lib X_a X_b y_a y_b ne md nf s1
                = (Inr (tr_loss, va_loss, (idx, imps)), s2)"
    and rest: "multisplit_loop lib X y ne md nf n
                 (fst totals + tr_loss, fst (snd totals) + va_loss, arr) s2 = (Inr tot, s')"
    by (auto simp: py_bind_def py_lift_def split: sum.splits prod.splits)
  from Suc.IH [OF rest] have
    "trace s' = trace s2 @ concat (replicate n (TrainTestSplit # replicate (nat nf) ForestFit))" .
  moreover from fit have "trace s2 = trace s1 @ replicate (nat nf) ForestFit"
    by (rule avg_random_forest_fit_predict_returns)
  moreover from split have "trace s1 = trace s @ [TrainTestSplit]"
    by (rule train_test_split_trace)
  ultimately show ?case by simp
qed

lemma multisplit_returns:
  assumes "multisplit_avg_random_forest_fit_predict lib X y ne md nf nd s
             = (Inr (tr_loss, va_loss, (idx, imps)), s')"
  shows "trace s' = trace s
           @ concat (replicate (nat nd) (TrainTestSplit # replicate (nat nf) ForestFit))"
    and "idx = columns X" and "length imps = length X"
proof -
  from assms obtain tot where
    loop: "multisplit_loop lib X y ne md nf (nat nd) (0, 0, replicate (length X) 0) s
             = (Inr tot, s')"
    and imp: "importance_frame (map (\<lambda>t. t / real_of_int nd) (snd (snd tot))) (columns X)
                = Inr (idx, imps)"
    by (auto simp: multisplit_avg_random_forest_fit_predict_def py_bind_def py_lift_def
        py_return_def split: sum.splits prod.splits)
  from multisplit_loop_returns [OF loop]
  show "trace s' = trace s
          @ concat (replicate (nat nd) (TrainTestSplit # replicate (nat nf) ForestFit))" .
  from imp show "idx = columns X" and "length imps = length X"
    by (auto simp: importance_frame_def columns_def split: if_splits)
qed

lemma filter_name_singleton:
  "distinct (map fst df) \<Longrightarrow> n \<in> set (map fst df)
     \<Longrightarrow> map fst (filter (\<lambda>c. fst c = n) df) = [n]"
proof (induction df)
  case Nil
  then show ?case by simp
next
  case (Cons c df)
  show ?case
  proof (cases "fst c = n")
    case True
    with Cons.prems have "n \<notin> fst ` set df" by auto
    then have "filter (\<lambda>c. fst c = n) df = []"
      by (auto simp: filter_empty_conv)
    with True show ?thesis by simp
  next
    case False
    with Cons show ?thesis by auto
  qed
qed

lemma select_columns_ok:
  assumes "distinct (columns X)" and "set fs \<subseteq> set (columns X)"
  shows "\<exists>X_a. select_columns X fs = Inr X_a \<and> columns X_a = fs"
proof -
  have "map fst (concat (map (\<lambda>n. filter (\<lambda>c. fst c = n) X) fs)) = fs"
    using assms(2)
  proof (induction fs)
    case Nil
    then show ?case by simp
  next
    case (Cons f fs)
    then have "map fst (filter (\<lambda>c. fst c = f) X) = [f]"
      using filter_name_singleton [of X f] assms(1) by (simp add: columns_def)
    with Cons show ?case by simp
  qed
  moreover have "list_all (\<lambda>n. n \<in> set (columns X)) fs"
    using assms(2) by (auto simp: list_all_iff)
  ultimately show ?thesis
    by (simp add: select_columns_def columns_def)
qed

lemma select_columns_returns:
  assumes "distinct (columns X)" and "select_columns X fs = Inr X_a"
  shows "columns X_a = fs" and "set fs \<subseteq> set (columns X)"
proof -
  from assms(2) show sub: "set fs \<subseteq> set (columns X)"
    by (auto simp: select_columns_def list_all_iff split: if_splits)
  from select_columns_ok [OF assms(1) sub] assms(2) show "columns X_a = fs"
    by auto
qed

lemma first_min_index_less: "xs \<noteq> [] \<Longrightarrow> first_min_index xs < length xs"
  by (induction xs rule: first_min_index.induct) (auto simp: Let_def)

lemma first_min_index_least:
  "j < length xs \<Longrightarrow> xs ! first_min_index xs \<le> xs ! j"
proof (induction xs arbitrary: j rule: first_min_index.induct)
  case 1
  then show ?case by simp
next
  case (2 x)
  then show ?case by simp
next
  case (3 x y ys)
  show ?case
  proof (cases j)
    case 0
    then show ?thesis by (auto simp: Let_def)
  next
    case (Suc j')
    with "3.prems" have "(y # ys) ! first_min_index (y # ys) \<le> (y # ys) ! j'"
      using "3.IH" by simp
    with Suc show ?thesis by (auto simp: Let_def)
  qed
qed

lemma first_min_index_first:
  "j < first_min_index xs \<Longrightarrow> xs ! first_min_index xs < xs ! j"
proof (induction xs arbitrary: j rule: first_min_index.induct)
  case 1
  then show ?case by simp
next
  case (2 x)
  then show ?case by simp
next
  case (3 x y ys)
  let ?i = "first_min_index (y # ys)"
  from "3.prems" have gt: "\<not> x \<le> (y # ys) ! ?i"
    by (auto simp: Let_def split: if_splits)
  then have idx: "first_min_index (x # y # ys) = Suc ?i"
    by (simp add: Let_def)
  show ?case
  proof (cases j)
    case 0
    with gt idx show ?thesis by simp
  next
    case (Suc j')
    with "3.prems" idx have "j' < ?i" by simp
    from "3.IH" [OF this] Suc idx show ?thesis by simp
  qed
qed

lemma drop_round_returns:
  assumes dX: "distinct (columns X)" and run: "drop_round lib X y st s = (Inr st', s')"
  shows "\<exists>X_a tr_loss va_loss imps i l.
           select_columns X (feature_names st) = Inr X_a
         \<and> multisplit_avg_random_forest_fit_predict lib X_a y 20 1 5 5 s
             = (Inr (tr_loss, va_loss, (feature_names st, imps)), s')
         \<and> trace s' = trace s @ round_events
         \<and> length imps = length (feature_names st)
         \<and> i < length imps
         \<and> (\<forall>j<length imps. imps ! i \<le> imps ! j) \<and> (\<forall>j<i. imps ! i < imps ! j)
         \<and> map_of (feature_drop_iterations st) (feature_names st ! i) = Some l
         \<and> st' = \<lparr>results = results st @ [(tr_loss, va_loss)],
                     feature_names = remove1 (feature_names st ! i) (feature_names st),
                     feature_drop_iterations =
                       AList.update (feature_names st ! i) (l @ [length (feature_names st) - 1])
                         (feature_drop_iterations st)\<rparr>"
proof -
  let ?fs = "feature_names st"
  from run obtain X_a tr_loss va_loss idx imps i f fs' d' where
    sel: "select_columns X ?fs = Inr X_a"
    and ms: "multisplit_avg_random_forest_fit_predict lib X_a y 20 1 5 5 s
               = (Inr (tr_loss, va_loss, (idx, imps)), s')"
    and am: "np_argmin imps = Inr i"
    and get: "list_get ?fs i = Inr f"
    and rem: "list_remove ?fs f = Inr fs'"
    and app: "dict_append (feature_drop_iterations st) f (length fs') = Inr d'"
    and st': "st' = \<lparr>results = results st @ [(tr_loss, va_loss)], feature_names = fs',
                      feature_drop_iterations = d'\<rparr>"
    by (auto simp: drop_round_def py_bind_def py_lift_def py_return_def
        split: sum.splits prod.splits)
  from select_columns_returns [OF dX sel] have cols: "columns X_a = ?fs" by simp
  then have lenX: "length X_a = length ?fs"
    by (metis columns_def length_map)
  from multisplit_returns [OF ms] cols lenX have
    tr: "trace s' = trace s @ round_events" and idx: "idx = ?fs"
    and len: "length imps = length ?fs"
    by (simp_all add: round_events_def)
  from am have ne: "imps \<noteq> []" and i: "i = first_min_index imps"
    by (auto simp: np_argmin_def split: if_splits)
  from get have f: "f = ?fs ! i" and ifs: "i < length ?fs"
    by (auto simp: list_get_def split: if_splits)
  from rem have fs': "fs' = remove1 f ?fs" and mem: "f \<in> set ?fs"
    by (auto simp: list_remove_def split: if_splits)
  from app obtain l where l: "map_of (feature_drop_iterations st) f = Some l"
    and d': "d' = AList.update f (l @ [length fs']) (feature_drop_iterations st)"
    by (auto simp: dict_append_def split: option.splits)
  from mem fs' have "length fs' = length ?fs - 1"
    by (simp add: length_remove1)
  with st' fs' d' f have "st' = \<lparr>results = results st @ [(tr_loss, va_loss)],
                 feature_names = remove1 (?fs ! i) ?fs,
                 feature_drop_iterations =
                   AList.update (?fs ! i) (l @ [length ?fs - 1]) (feature_drop_iterations st)\<rparr>"
    by simp
  moreover have "i < length imps" using ifs len by simp
  moreover have "\<forall>j<length imps. imps ! i \<le> imps ! j"
    unfolding i by (simp add: first_min_index_least)
  moreover have "\<forall>j<i. imps ! i < imps ! j"
    unfolding i by (simp add: first_min_index_first)
  ultimately show ?thesis
    using sel ms tr len l idx f by blast
qed

lemma multisplit_loop_chain:
  "multisplit_loop lib X y ne md nf n totals s = (Inr tot, s')
     \<Longrightarrow> \<exists>parts. length parts = n \<and> resplit_chain lib X y 0.2 ne md nf s parts s'"
proof (induction n arbitrary: totals s)
  case 0
  then show ?case by (simp add: py_return_def)
next
  case (Suc n)
  from Suc.prems obtain X_a X_b y_a y_b s1 tr_loss va_loss idx imps s2 arr where
    split: "train_test_split lib X y 0.2 s = (Inr (X_a, X_b, y_a, y_b), s1)"
    and fit: "avg_random_forest_fit_predict lib X_a X_b y_a y_b ne md nf s1
                = (Inr (tr_loss, va_loss, (idx, imps)), s2)"
    and rest: "multisplit_loop lib X y ne md nf n
                 (fst totals + tr_loss, fst (snd totals) + va_loss, arr) s2 = (Inr tot, s')"
    by (auto simp: py_bind_def py_lift_def split: sum.splits prod.splits)
  from Suc.IH [OF rest] obtain parts where
    len: "length parts = n" and chain: "resplit_chain lib X y 0.2 ne md nf s2 parts s'"
    by blast
  from split have tr1: "trace s1 = trace s @ [TrainTestSplit]"
    by (rule train_test_split_trace)
  from fit have tr2: "trace s2 = trace s1 @ replicate (nat nf) ForestFit"
    by (rule avg_random_forest_fit_predict_returns)
  from split tr1 fit tr2 chain
  have "resplit_chain lib X y 0.2 ne md nf s ((X_a, X_b, y_a, y_b) # parts) s'"
    by auto
  with len show ?case
    by (intro exI [of _ "(X_a, X_b, y_a, y_b) # parts"]) simp
qed

lemma drop_round_chain:
  assumes "drop_round lib X y st s = (Inr st', s')"
  shows "\<exists>X_active parts. select_columns X (feature_names st) = Inr X_active
           \<and> length parts = 5 \<and> resplit_chain lib X_active y 0.2 20 1 5 s parts s'"
proof -
  from assms obtain X_a res where
    sel: "select_columns X (feature_names st) = Inr X_a"
    and ms: "multisplit_avg_random_forest_fit_predict lib X_a y 20 1 5 5 s = (Inr res, s')"
    by (auto simp: drop_round_def py_bind_def py_lift_def py_return_def
        split: sum.splits prod.splits)
  from ms obtain tot where
    "multisplit_loop lib X_a y 20 1 5 (nat 5) (0, 0, replicate (length X_a) 0) s = (Inr tot, s')"
    by (auto simp: multisplit_avg_random_forest_fit_predict_def py_bind_def py_lift_def
        py_return_def split: sum.splits prod.splits)
  from multisplit_loop_chain [OF this] sel show ?thesis by auto
qed

section \<open>The loop invariant\<close>

lemma mset_values_update:
  "distinct (map fst al) \<Longrightarrow> map_of al k = Some l
     \<Longrightarrow> mset (concat (map snd (AList.update k (l @ [v]) al)))
         = add_mset v (mset (concat (map snd al)))"
proof (induction al)
  case Nil
  then show ?case by simp
next
  case (Cons p al)
  show ?case
  proof (cases "fst p = k")
    case True
    with Cons.prems have "snd p = l" by (cases p) auto
    with True show ?thesis by (cases p) auto
  next
    case False
    with Cons show ?thesis by (cases p) auto
  qed
qed

lemma dict_from_keys_distinct:
  "distinct ks \<Longrightarrow> dict_from_keys ks = map (\<lambda>k. (k, [])) ks"
proof (induction ks rule: rev_induct)
  case Nil
  then show ?case by (simp add: dict_from_keys_def)
next
  case (snoc k ks)
  then have "dict_from_keys ks = map (\<lambda>k. (k, [])) ks" by simp
  moreover have "k \<notin> fst ` set (map (\<lambda>k. (k, [])) ks)"
    using snoc.prems by (auto simp: image_iff)
  then have "AList.update k [] (map (\<lambda>k. (k, [])) ks) = map (\<lambda>k. (k, [])) ks @ [(k, [])]"
    by (induction ks) auto
  ultimately show ?case by (simp add: dict_from_keys_def)
qed

lemma loop_inv_init:
  assumes "distinct cols"
  shows "loop_inv cols \<lparr>results = [], feature_names = cols,
                        feature_drop_iterations = dict_from_keys cols\<rparr>"
proof -
  have "map_of (map (\<lambda>k. (k, [])) cols) f = Some []" if "f \<in> set cols" for f :: string
    using that by (induction cols) auto
  moreover have "concat (map snd (map (\<lambda>k. (k, [])) cols)) = []" for cols :: "string list"
    by (induction cols) auto
  ultimately show ?thesis
    using assms by (simp add: loop_inv_def dict_from_keys_distinct comp_def)
qed

lemma loop_inv_step:
  assumes inv: "loop_inv cols st" and mem: "f \<in> set (feature_names st)"
  shows "loop_inv cols
           \<lparr>results = results st @ [r], feature_names = remove1 f (feature_names st),
            feature_drop_iterations =
              AList.update f [length (feature_names st) - 1] (feature_drop_iterations st)\<rparr>"
    (is "loop_inv cols ?st'")
proof -
  let ?fs = "feature_names st" and ?d = "feature_drop_iterations st"
  from inv have dX: "distinct cols" and dfs: "distinct ?fs" and sub: "set ?fs \<subseteq> set cols"
    and keys: "map fst ?d = cols"
    and active: "\<forall>f\<in>set ?fs. map_of ?d f = Some []"
    and dropped: "\<forall>f\<in>set cols - set ?fs. \<exists>c. map_of ?d f = Some [c]"
    and vals: "mset (concat (map snd ?d)) = mset [length ?fs..<length cols]"
    and cnt: "length (results st) + length ?fs = length cols"
    unfolding loop_inv_def by blast+
  from mem sub keys have fkey: "f \<in> set (map fst ?d)" by auto
  have k1: "map fst (feature_drop_iterations ?st') = cols"
    using keys fkey by (simp add: update_keys)
  have k2: "\<forall>g\<in>set (feature_names ?st'). map_of (feature_drop_iterations ?st') g = Some []"
    using active dfs by (auto simp: update_conv')
  have k3: "\<forall>g\<in>set cols - set (feature_names ?st').
              \<exists>c. map_of (feature_drop_iterations ?st') g = Some [c]"
    using dropped dfs mem by (auto simp: update_conv')
  from mem have pos: "0 < length ?fs" by (rule length_pos_if_in_set)
  with cnt have lt: "length ?fs - 1 < length cols" by linarith
  have "mset (concat (map snd (AList.update f ([] @ [length ?fs - 1]) ?d)))
          = add_mset (length ?fs - 1) (mset (concat (map snd ?d)))"
    using keys dX active mem by (intro mset_values_update) auto
  also have "\<dots> = mset ((length ?fs - 1) # [Suc (length ?fs - 1)..<length cols])"
    using vals pos by simp
  also have "\<dots> = mset [length ?fs - 1..<length cols]"
    using lt by (simp add: upt_conv_Cons)
  finally have k4: "mset (concat (map snd (feature_drop_iterations ?st')))
                      = mset [length (feature_names ?st')..<length cols]"
    using mem by (simp add: length_remove1)
  have len': "length (feature_names ?st') = length ?fs - 1"
    using mem by (simp add: length_remove1)
  have res': "length (results ?st') = Suc (length (results st))"
    by simp
  have k5: "length (results ?st') + length (feature_names ?st') = length cols"
    using cnt pos len' res' by linarith
  show ?thesis
    unfolding loop_inv_def using dX dfs sub k1 k2 k3 k4 k5
    by (auto dest: notin_set_remove1)
qed

lemma drop_round_returns_inv:
  assumes inv: "loop_inv (columns X) st" and run: "drop_round lib X y st s = (Inr st', s')"
  shows "\<exists>f. f \<in> set (feature_names st)
           \<and> feature_names st' = remove1 f (feature_names st)
           \<and> map_of (feature_drop_iterations st') f = Some [length (feature_names st) - 1]
           \<and> length (results st') = Suc (length (results st))
           \<and> trace s' = trace s @ round_events
           \<and> loop_inv (columns X) st'"
proof -
  let ?fs = "feature_names st"
  from inv have dX: "distinct (columns X)"
    and active: "\<forall>f\<in>set ?fs. map_of (feature_drop_iterations st) f = Some []"
    unfolding loop_inv_def by blast+
  from drop_round_returns [OF dX run] obtain tr_loss va_loss and imps :: "real list" and i l where
    tr: "trace s' = trace s @ round_events"
    and len: "length imps = length ?fs" and i: "i < length imps"
    and l: "map_of (feature_drop_iterations st) (?fs ! i) = Some l"
    and st': "st' = \<lparr>results = results st @ [(tr_loss, va_loss)],
                 feature_names = remove1 (?fs ! i) ?fs,
                 feature_drop_iterations =
                   AList.update (?fs ! i) (l @ [length ?fs - 1]) (feature_drop_iterations st)\<rparr>"
    by blast
  from i len have mem: "?fs ! i \<in> set ?fs" by simp
  with active l have "l = []" by simp
  with st' have st'': "st' = \<lparr>results = results st @ [(tr_loss, va_loss)],
                 feature_names = remove1 (?fs ! i) ?fs,
                 feature_drop_iterations =
                   AList.update (?fs ! i) [length ?fs - 1] (feature_drop_iterations st)\<rparr>"
    by simp
  have "loop_inv (columns X) st'"
    unfolding st'' using inv mem by (rule loop_inv_step)
  moreover have "map_of (feature_drop_iterations st') (?fs ! i) = Some [length ?fs - 1]"
    by (simp add: st'' update_conv')
  moreover have "feature_names st' = remove1 (?fs ! i) ?fs"
    and "length (results st') = Suc (length (results st))"
    by (simp_all add: st'')
  ultimately show ?thesis using mem tr by blast
qed

lemma py_bind_assoc: "py_bind (py_bind m f) g = py_bind m (\<lambda>x. py_bind (f x) g)"
  by (auto simp: py_bind_def fun_eq_iff split: prod.splits sum.splits)

lemma py_bind_return_left: "py_bind (py_return x) f = f x"
  by (simp add: py_bind_def py_return_def)

lemma py_bind_return_right: "py_bind m py_return = m"
  by (auto simp: py_bind_def py_return_def fun_eq_iff split: prod.splits sum.splits)

lemma drop_rounds_last:
  "drop_rounds lib X y (Suc n) st
     = py_bind (drop_rounds lib X y n st) (drop_round lib X y)"
proof (induction n arbitrary: st)
  case 0
  have "drop_rounds lib X y 0 = py_return"
    by (rule ext) simp
  then show ?case by (simp add: py_bind_return_left py_bind_return_right)
next
  case (Suc n)
  have "drop_rounds lib X y (Suc (Suc n)) st
          = py_bind (drop_round lib X y st) (drop_rounds lib X y (Suc n))"
    by simp
  also have "\<dots> = py_bind (drop_round lib X y st)
                     (\<lambda>st'. py_bind (drop_rounds lib X y n st') (drop_round lib X y))"
    using Suc.IH by presburger
  also have "\<dots> = py_bind (drop_rounds lib X y (Suc n) st) (drop_round lib X y)"
    by (simp add: py_bind_assoc)
  finally show ?case .
qed

lemma drop_rounds_returns:
  "loop_inv (columns X) st \<Longrightarrow> drop_rounds lib X y n st s = (Inr st', s') \<Longrightarrow>
     loop_inv (columns X) st' \<and> n \<le> length (feature_names st)
   \<and> length (feature_names st') = length (feature_names st) - n
   \<and> length (results st') = length (results st) + n
   \<and> trace s' = trace s @ concat (replicate n round_events)"
proof (induction n arbitrary: st s)
  case 0
  then show ?case by (simp add: py_return_def)
next
  case (Suc n)
  from Suc.prems(2) obtain st1 s1 where
    step: "drop_round lib X y st s = (Inr st1, s1)"
    and rest: "drop_rounds lib X y n st1 s1 = (Inr st', s')"
    by (auto simp: py_bind_def split: sum.splits prod.splits)
  from drop_round_returns_inv [OF Suc.prems(1) step] obtain f where
    f: "f \<in> set (feature_names st)"
    and fs1: "feature_names st1 = remove1 f (feature_names st)"
    and res1: "length (results st1) = Suc (length (results st))"
    and tr1: "trace s1 = trace s @ round_events"
    and inv1: "loop_inv (columns X) st1"
    by blast
  from f fs1 have len1: "length (feature_names st1) = length (feature_names st) - 1"
    by (simp add: length_remove1)
  from f have pos: "0 < length (feature_names st)" by (rule length_pos_if_in_set)
  from Suc.IH [OF inv1 rest] have inv': "loop_inv (columns X) st'"
    and n: "n \<le> length (feature_names st1)"
    and len': "length (feature_names st') = length (feature_names st1) - n"
    and res': "length (results st') = length (results st1) + n"
    and tr': "trace s' = trace s1 @ concat (replicate n round_events)"
    by blast+
  have "Suc n \<le> length (feature_names st)" using n len1 pos by linarith
  moreover have "length (feature_names st') = length (feature_names st) - Suc n"
    using len' len1 by simp
  moreover have "length (results st') = length (results st) + Suc n"
    using res' res1 by simp
  moreover have "trace s' = trace s @ concat (replicate (Suc n) round_events)"
    using tr' tr1 by simp
  ultimately show ?case using inv' by blast
qed

lemma drop_loop_returns:
  "loop_inv (columns X) st \<Longrightarrow> length (feature_names st) = n \<Longrightarrow>
   drop_loop lib X y st s = (Inr st', s') \<Longrightarrow>
     drop_rounds lib X y n st s = (Inr st', s') \<and> feature_names st' = []"
proof (induction n arbitrary: st s)
  case 0
  then show ?case by (simp add: drop_loop.simps py_return_def)
next
  case (Suc n)
  from Suc.prems(2,3) obtain st1 s1 where
    step: "drop_round lib X y st s = (Inr st1, s1)"
    and rest: "drop_loop lib X y st1 s1 = (Inr st', s')"
    by (subst (asm) drop_loop.simps) (auto split: sum.splits prod.splits)
  from drop_round_returns_inv [OF Suc.prems(1) step] obtain f where
    f: "f \<in> set (feature_names st)"
    and fs1: "feature_names st1 = remove1 f (feature_names st)"
    and inv1: "loop_inv (columns X) st1"
    by blast
  from f fs1 Suc.prems(2) have "length (feature_names st1) = n"
    by (simp add: length_remove1)
  from Suc.IH [OF inv1 this rest] step show ?case
    by (simp add: py_bind_def)
qed

lemma drop_rounds_last_returns:
  assumes "drop_rounds lib X y (Suc n) st s = (Inr st', s')"
  shows "\<exists>st1 s1. drop_rounds lib X y n st s = (Inr st1, s1)
           \<and> drop_round lib X y st1 s1 = (Inr st', s')"
  using assms unfolding drop_rounds_last
  by (auto simp: py_bind_def split: sum.splits prod.splits)

lemma drop_rounds_prefix:
  "drop_rounds lib X y n st s = (Inr st', s') \<Longrightarrow> j \<le> n
     \<Longrightarrow> \<exists>st_j s_j. drop_rounds lib X y j st s = (Inr st_j, s_j)"
proof (induction n arbitrary: st' s')
  case 0
  then show ?case by simp
next
  case (Suc n)
  show ?case
  proof (cases "j = Suc n")
    case True
    with Suc.prems(1) show ?thesis by blast
  next
    case False
    with Suc.prems(2) have "j \<le> n" by simp
    moreover from drop_rounds_last_returns [OF Suc.prems(1)] obtain st1 s1 where
      "drop_rounds lib X y n st s = (Inr st1, s1)" by blast
    ultimately show ?thesis by (intro Suc.IH)
  qed
qed

lemma drop_rounds_round:
  assumes "drop_rounds lib X y n st s = (Inr st', s')" and "j < n"
  shows "\<exists>st_j s_j st_next s_next.
           drop_rounds lib X y j st s = (Inr st_j, s_j)
         \<and> drop_round lib X y st_j s_j = (Inr st_next, s_next)
         \<and> drop_rounds lib X y (Suc j) st s = (Inr st_next, s_next)"
proof -
  from assms(2) have "Suc j \<le> n" by simp
  from drop_rounds_prefix [OF assms(1) this] obtain st_next s_next where
    next_round: "drop_rounds lib X y (Suc j) st s = (Inr st_next, s_next)" by blast
  from drop_rounds_last_returns [OF this] next_round show ?thesis by blast
qed

text \<open>What a run of the loop that returns has done and left behind.\<close>

lemma drop_loop_summary:
  assumes dX: "distinct (columns X)"
    and run: "drop_loop lib X y (initial_state X) s = (Inr st', s')"
  shows "drop_rounds lib X y (length X) (initial_state X) s = (Inr st', s')"
    and "loop_inv (columns X) st'" and "feature_names st' = []"
    and "length (results st') = length X"
    and "trace s' = trace s @ concat (replicate (length X) round_events)"
proof -
  have inv: "loop_inv (columns X) (initial_state X)"
    unfolding initial_state_def using dX by (rule loop_inv_init)
  have len: "length (feature_names (initial_state X)) = length X"
    by (simp add: initial_state_def columns_def)
  from drop_loop_returns [OF inv len run]
  show rounds: "drop_rounds lib X y (length X) (initial_state X) s = (Inr st', s')"
    and "feature_names st' = []" by simp_all
  from drop_rounds_returns [OF inv rounds]
  show "loop_inv (columns X) st'" and "length (results st') = length X"
    and "trace s' = trace s @ concat (replicate (length X) round_events)"
    by (simp_all add: initial_state_def)
qed

lemma final_record:
  assumes "loop_inv cols st" and "feature_names st = []"
  shows "map fst (feature_drop_iterations st) = cols"
    and "\<forall>f\<in>set cols. \<exists>c. map_of (feature_drop_iterations st) f = Some [c]"
    and "sort (concat (map snd (feature_drop_iterations st))) = [0..<length cols]"
proof -
  from assms show "map fst (feature_drop_iterations st) = cols"
    unfolding loop_inv_def by blast
  from assms(1) have dropped: "\<forall>f\<in>set cols - set (feature_names st).
      \<exists>c. map_of (feature_drop_iterations st) f = Some [c]"
    unfolding loop_inv_def by blast
  show "\<forall>f\<in>set cols. \<exists>c. map_of (feature_drop_iterations st) f = Some [c]"
  proof
    fix f assume "f \<in> set cols"
    with assms(2) have "f \<in> set cols - set (feature_names st)" by simp
    with dropped show "\<exists>c. map_of (feature_drop_iterations st) f = Some [c]" by blast
  qed
  from assms have "mset (concat (map snd (feature_drop_iterations st))) = mset [0..<length cols]"
    unfolding loop_inv_def by (metis list.size(3))
  then show "sort (concat (map snd (feature_drop_iterations st))) = [0..<length cols]"
    by (metis sorted_upt properties_for_sort)
qed

lemma experiment_unfold:
  assumes "load_dataset lib ''responder.csv'' = Inr dataset"
    and "preprocess_dataset lib dataset = Inr (labels, D)"
    and "train_test_split lib D labels 0.2 s = (Inr (X_train, X_test, y_train, y_test), s1)"
  shows "drop_feature_experiment lib s
           = (case drop_loop lib X_train y_train (initial_state X_train) s1 of
                (Inl e, s') \<Rightarrow> (Inl e, s')
              | (Inr st', s') \<Rightarrow> (Inr (feature_drop_iterations st'), s'))"
  using assms
  by (simp add: drop_feature_experiment_def py_bind_def py_lift_def py_return_def
      split: sum.splits prod.splits)

lemma experiment_returns:
  assumes "load_dataset lib ''responder.csv'' = Inr dataset"
    and "preprocess_dataset lib dataset = Inr (labels, D)"
    and "train_test_split lib D labels 0.2 s = (Inr (X_train, X_test, y_train, y_test), s1)"
    and "drop_feature_experiment lib s = (Inr drops, s')"
  shows "\<exists>st'. drop_loop lib X_train y_train (initial_state X_train) s1 = (Inr st', s')
           \<and> drops = feature_drop_iterations st'"
  using assms(4) unfolding experiment_unfold [OF assms(1-3)]
  by (auto split: sum.splits prod.splits)

lemma split_calls_round: "split_calls round_events = 5"
  by (simp add: split_calls_def round_events_def eval_nat_numeral)

lemma split_calls_append: "split_calls (xs @ ys) = split_calls xs + split_calls ys"
  by (simp add: split_calls_def)

lemma split_calls_rounds: "split_calls (concat (replicate k round_events)) = 5 * k"
  by (induction k) (simp_all add: split_calls_append split_calls_round, simp add: split_calls_def)

section \<open>Runs with a library whose calls succeed\<close>

lemma train_test_split_ok:
  assumes "lib_ok lib"
  shows "\<exists>X_a X_b y_a y_b s'. train_test_split lib X y t s = (Inr (X_a, X_b, y_a, y_b), s')
           \<and> columns X_a = columns X \<and> trace s' = trace s @ [TrainTestSplit]"
proof -
  from assms obtain X_a X_b y_a y_b r' where
    "sk_train_test_split lib (rng s) X y t = Inr ((X_a, X_b, y_a, y_b), r')"
    and "columns X_a = columns X"
    unfolding lib_ok_def by blast
  then show ?thesis
    by (simp add: train_test_split_def)
qed

lemma random_forest_fit_predict_ok:
  assumes "lib_ok lib"
  shows "\<exists>tl vl imps s'.
           random_forest_fit_predict lib X X_t y y_t ne md s = (Inr (tl, vl, (columns X, imps)), s')
           \<and> length imps = length X \<and> trace s' = trace s @ [ForestFit]"
proof -
  from assms obtain m r' where fit: "rf_fit lib (rng s) ne md X y = Inr (m, r')"
    and len: "length (rf_feature_importances lib m) = length X"
    unfolding lib_ok_def by blast
  from assms obtain tl where tl: "rf_score lib m X y = Inr tl"
    unfolding lib_ok_def by blast
  from assms obtain vl where vl: "rf_validation_loss lib m X_t y_t = Inr vl"
    unfolding lib_ok_def by blast
  from fit len tl vl show ?thesis
    by (simp add: random_forest_fit_predict_def forest_fit_def py_bind_def py_lift_def
        py_return_def importance_frame_def columns_def)
qed

lemma avg_fit_loop_ok:
  assumes "lib_ok lib"
  shows "length (snd (snd totals)) = length X \<Longrightarrow>
         \<exists>tot s'. avg_fit_loop lib X X_t y y_t ne md n totals s = (Inr tot, s')
           \<and> length (snd (snd tot)) = length X \<and> trace s' = trace s @ replicate n ForestFit"
proof (induction n arbitrary: totals s)
  case 0
  then show ?case by (simp add: py_return_def)
next
  case (Suc n)
  from random_forest_fit_predict_ok [OF assms, of X X_t y y_t ne md s]
  obtain tl vl imps s1 where
    fit: "random_forest_fit_predict lib X X_t y y_t ne md s = (Inr (tl, vl, (columns X, imps)), s1)"
    and len: "length imps = length X" and tr: "trace s1 = trace s @ [ForestFit]"
    by blast
  let ?totals = "(fst totals + tl, fst (snd totals) + vl, map2 (+) (snd (snd totals)) imps)"
  have "length (snd (snd ?totals)) = length X"
    using Suc.prems len by simp
  from Suc.IH [OF this, of s1] obtain tot s' where
    rest: "avg_fit_loop lib X X_t y y_t ne md n ?totals s1 = (Inr tot, s')"
    and len': "length (snd (snd tot)) = length X"
    and tr': "trace s' = trace s1 @ replicate n ForestFit"
    by blast
  have "avg_fit_loop lib X X_t y y_t ne md (Suc n) totals s = (Inr tot, s')"
    using fit rest Suc.prems len
    by (simp add: py_bind_def py_lift_def np_iadd_def)
  moreover have "trace s' = trace s @ replicate (Suc n) ForestFit"
    using tr tr' by (simp add: replicate_append_same)
  ultimately show ?case using len' by blast
qed

lemma avg_random_forest_fit_predict_ok:
  assumes "lib_ok lib" and "1 \<le> n"
  shows "\<exists>tl vl imps s'.
           avg_random_forest_fit_predict lib X X_t y y_t ne md n s
             = (Inr (tl, vl, (columns X, imps)), s')
           \<and> length imps = length X \<and> trace s' = trace s @ replicate (nat n) ForestFit"
proof -
  have "length (snd (snd (0::real, 0::real, replicate (length X) (0::real)))) = length X"
    by simp
  from avg_fit_loop_ok [OF assms(1) this, of X_t y y_t ne md "nat n" s]
  obtain tot s' where
    loop: "avg_fit_loop lib X X_t y y_t ne md (nat n) (0, 0, replicate (length X) 0) s = (Inr tot, s')"
    and len: "length (snd (snd tot)) = length X"
    and tr: "trace s' = trace s @ replicate (nat n) ForestFit"
    by blast
  obtain a b c where tot: "tot = (a, b, c)" by (cases tot) auto
  from loop len tot assms(2) have
    "avg_random_forest_fit_predict lib X X_t y y_t ne md n s
       = (Inr (a / real_of_int n, b / real_of_int n,
               (columns X, map (\<lambda>t. t / real_of_int n) c)), s')"
    by (simp add: avg_random_forest_fit_predict_def py_bind_def py_lift_def py_return_def
        py_div_def importance_frame_def columns_def)
  with len tot tr show ?thesis by simp
qed

lemma multisplit_loop_ok:
  assumes "lib_ok lib" and "1 \<le> nf"
  shows "length (snd (snd totals)) = length X \<Longrightarrow>
         \<exists>tot s'. multisplit_loop lib X y ne md nf n totals s = (Inr tot, s')
           \<and> length (snd (snd tot)) = length X
           \<and> trace s' = trace s @ concat (replicate n (TrainTestSplit # replicate (nat nf) ForestFit))"
proof (induction n arbitrary: totals s)
  case 0
  then show ?case by (simp add: py_return_def)
next
  case (Suc n)
  from train_test_split_ok [OF assms(1), of X y "0.2" s]
  obtain X_a X_b y_a y_b s1 where
    split: "train_test_split lib X y 0.2 s = (Inr (X_a, X_b, y_a, y_b), s1)"
    and cols: "columns X_a = columns X" and tr1: "trace s1 = trace s @ [TrainTestSplit]"
    by blast
  from cols have lenX: "length X_a = length X"
    by (metis columns_def length_map)
  from avg_random_forest_fit_predict_ok [OF assms, of X_a X_b y_a y_b ne md s1]
  obtain tl vl imps s2 where
    fit: "avg_random_forest_fit_predict lib X_a X_b y_a y_b ne md nf s1
            = (Inr (tl, vl, (columns X_a, imps)), s2)"
    and len: "length imps = length X_a"
    and tr2: "trace s2 = trace s1 @ replicate (nat nf) ForestFit"
    by blast
  let ?totals = "(fst totals + tl, fst (snd totals) + vl, map2 (+) (snd (snd totals)) imps)"
  have "length (snd (snd ?totals)) = length X"
    using Suc.prems len lenX by simp
  from Suc.IH [OF this, of s2] obtain tot s' where
    rest: "multisplit_loop lib X y ne md nf n ?totals s2 = (Inr tot, s')"
    and len': "length (snd (snd tot)) = length X"
    and tr': "trace s' = trace s2
                @ concat (replicate n (TrainTestSplit # replicate (nat nf) ForestFit))"
    by blast
  have "multisplit_loop lib X y ne md nf (Suc n) totals s = (Inr tot, s')"
    using split fit rest Suc.prems len lenX
    by (simp add: py_bind_def py_lift_def np_iadd_def)
  moreover have "trace s' = trace s
      @ concat (replicate (Suc n) (TrainTestSplit # replicate (nat nf) ForestFit))"
    using tr1 tr2 tr' by simp
  ultimately show ?case using len' by blast
qed

lemma multisplit_ok:
  assumes "lib_ok lib" and "1 \<le> nf" and "1 \<le> nd"
  shows "\<exists>tl vl imps s'.
           multisplit_avg_random_forest_fit_predict lib X y ne md nf nd s
             = (Inr (tl, vl, (columns X, imps)), s')
           \<and> length imps = length X
           \<and> trace s' = trace s
               @ concat (replicate (nat nd) (TrainTestSplit # replicate (nat nf) ForestFit))"
proof -
  have "length (snd (snd (0::real, 0::real, replicate (length X) (0::real)))) = length X"
    by simp
  from multisplit_loop_ok [OF assms(1,2) this, of y ne md "nat nd" s]
  obtain tot s' where
    loop: "multisplit_loop lib X y ne md nf (nat nd) (0, 0, replicate (length X) 0) s
             = (Inr tot, s')"
    and len: "length (snd (snd tot)) = length X"
    and tr: "trace s' = trace s
               @ concat (replicate (nat nd) (TrainTestSplit # replicate (nat nf) ForestFit))"
    by blast
  obtain a b c where tot: "tot = (a, b, c)" by (cases tot) auto
  from loop len tot assms(3) have
    "multisplit_avg_random_forest_fit_predict lib X y ne md nf nd s
       = (Inr (a / real_of_int nd, b / real_of_int nd,
               (columns X, map (\<lambda>t. t / real_of_int nd) c)), s')"
    by (simp add: multisplit_avg_random_forest_fit_predict_def py_bind_def py_lift_def
        py_return_def py_div_def importance_frame_def columns_def)
  with len tot tr show ?thesis by simp
qed

lemma drop_round_ok:
  assumes ok: "lib_ok lib" and inv: "loop_inv (columns X) st" and ne: "feature_names st \<noteq> []"
  shows "\<exists>st' s'. drop_round lib X y st s = (Inr st', s')"
proof -
  let ?fs = "feature_names st"
  from inv have dX: "distinct (columns X)" and sub: "set ?fs \<subseteq> set (columns X)"
    and active: "\<forall>f\<in>set ?fs. map_of (feature_drop_iterations st) f = Some []"
    unfolding loop_inv_def by blast+
  from select_columns_ok [OF dX sub] obtain X_a where
    sel: "select_columns X ?fs = Inr X_a" and cols: "columns X_a = ?fs"
    by blast
  from multisplit_ok [OF ok, of 5 5 X_a y 20 1 s] obtain tr_loss va_loss imps s' where
    ms: "multisplit_avg_random_forest_fit_predict lib X_a y 20 1 5 5 s
           = (Inr (tr_loss, va_loss, (columns X_a, imps)), s')"
    and len: "length imps = length X_a"
    by auto
  from cols have lenX: "length X_a = length ?fs"
    by (metis columns_def length_map)
  define i where "i = first_min_index imps"
  from len lenX ne have imps_ne: "imps \<noteq> []" by auto
  then have "i < length imps"
    unfolding i_def by (rule first_min_index_less)
  with len lenX have i_fs: "i < length ?fs" by simp
  then have mem: "?fs ! i \<in> set ?fs" by simp
  with active have l: "map_of (feature_drop_iterations st) (?fs ! i) = Some []" by blast
  have "drop_round lib X y st s
          = (Inr \<lparr>results = results st @ [(tr_loss, va_loss)],
                  feature_names = remove1 (?fs ! i) ?fs,
                  feature_drop_iterations =
                    AList.update (?fs ! i) ([] @ [length ?fs - 1])
                      (feature_drop_iterations st)\<rparr>,
             s')"
    using sel ms cols imps_ne i_fs mem l
    by (simp add: drop_round_def py_bind_def py_lift_def py_return_def np_argmin_def
        list_get_def list_remove_def dict_append_def length_remove1 i_def)
  then show ?thesis by blast
qed

lemma drop_loop_inv_ok:
  assumes ok: "lib_ok lib"
  shows "loop_inv (columns X) st \<Longrightarrow> length (feature_names st) = n \<Longrightarrow>
         \<exists>st' s'. drop_loop lib X y st s = (Inr st', s')"
proof (induction n arbitrary: st s)
  case 0
  then show ?case by (simp add: drop_loop.simps)
next
  case (Suc n)
  from Suc.prems have ne: "feature_names st \<noteq> []" by auto
  from drop_round_ok [OF ok Suc.prems(1) ne, of y s] obtain st1 s1 where
    step: "drop_round lib X y st s = (Inr st1, s1)"
    by blast
  from drop_round_returns_inv [OF Suc.prems(1) step] obtain f where
    f: "f \<in> set (feature_names st)"
    and fs1: "feature_names st1 = remove1 f (feature_names st)"
    and inv1: "loop_inv (columns X) st1"
    by blast
  from f fs1 Suc.prems(2) have "length (feature_names st1) = n"
    by (simp add: length_remove1)
  from Suc.IH [OF inv1 this, of s1] obtain st' s' where
    "drop_loop lib X y st1 s1 = (Inr st', s')"
    by blast
  moreover have "drop_loop lib X y st s = drop_loop lib X y st1 s1"
    using step Suc.prems(2) by (subst drop_loop.simps) simp
  ultimately show ?case by simp
qed

lemma drop_loop_ok:
  assumes "lib_ok lib" and "distinct (columns X)"
  shows "\<exists>st' s'. drop_loop lib X y (initial_state X) s = (Inr st', s')"
proof -
  have "loop_inv (columns X) (initial_state X)"
    unfolding initial_state_def using assms(2) by (rule loop_inv_init)
  from drop_loop_inv_ok [OF assms(1) this refl] show ?thesis .
qed

lemma experiment_ok:
  assumes ok: "lib_ok lib"
    and load: "load_dataset lib ''responder.csv'' = Inr dataset"
    and pre: "preprocess_dataset lib dataset = Inr (labels, D)"
    and dD: "distinct (columns D)"
  shows "\<exists>drops s'. drop_feature_experiment lib s = (Inr drops, s')"
proof -
  from train_test_split_ok [OF ok, of D labels "0.2" s]
  obtain X_train X_test y_train y_test s1 where
    split: "train_test_split lib D labels 0.2 s = (Inr (X_train, X_test, y_train, y_test), s1)"
    and cols: "columns X_train = columns D"
    by blast
  from dD cols have "distinct (columns X_train)" by simp
  from drop_loop_ok [OF ok this, of y_train s1] obtain st' s' where
    "drop_loop lib X_train y_train (initial_state X_train) s1 = (Inr st', s')"
    by blast
  then show ?thesis
    unfolding experiment_unfold [OF load pre split] by simp
qed

lemma local_split_calls_eq:
  assumes "lib_ok lib" and "distinct (columns X)"
  shows "local_split_calls lib X y s = 5 * length X"
proof -
  from drop_loop_ok [OF assms, of y s] obtain st' s' where
    run: "drop_loop lib X y (initial_state X) s = (Inr st', s')"
    by blast
  from drop_loop_summary(5) [OF assms(2) run] run show ?thesis
    by (simp add: local_split_calls_def split_calls_rounds)
qed

section \<open>The small library\<close>

lemma demo_lib_ok: "lib_ok (demo_lib features)"
  by (simp add: lib_ok_def demo_lib_def columns_def case_prod_beta comp_def)

lemma demo_load: "load_dataset (demo_lib features) ''responder.csv'' = Inr (demo_table features)"
  by (simp add: load_dataset_def demo_lib_def df_replace_def)

lemma median_demo: "median_of [1, 3] = Num 2"
  by (simp add: median_of_def)

lemma demo_impute:
  "impute_dataset (demo_table [''age'', ''sex''])
     = Inr (map (\<lambda>name. (name, [Num 1, Num 2, Num 3])) (redundant_features @ [''age'', ''sex'']))"
  by (simp add: impute_dataset_def demo_table_def redundant_features_def series_median_def
      median_demo fillna_def fillna_series_def)

lemma demo_preprocess:
  "preprocess_dataset (demo_lib [''age'', ''sex'']) (demo_table [''age'', ''sex''])
     = Inr (demo_labels, demo_features)"
  unfolding preprocess_dataset_def demo_impute
  by (simp add: demo_lib_def remove_redundant_features_def get_column_def df_drop_def
      redundant_features_def columns_def demo_labels_def demo_features_def)

lemma demo_distinct: "distinct (columns demo_features)"
  by (simp add: columns_def demo_features_def)

lemma demo_split:
  "train_test_split (demo_lib [''age'', ''sex'']) demo_features demo_labels 0.2 demo_world
     = (Inr (demo_X_train, demo_X_test, [Num 2, Num 3], [Num 1]), demo_world_split)"
  by (simp add: train_test_split_def demo_lib_def demo_world_def demo_features_def
      demo_labels_def demo_X_train_def demo_X_test_def demo_world_split_def)

lemma demo_train_distinct: "distinct (columns demo_X_train)"
  by (simp add: columns_def demo_X_train_def)

lemma demo_run:
  "\<exists>drops s'. drop_feature_experiment (demo_lib [''age'', ''sex'']) demo_world = (Inr drops, s')"
  using demo_lib_ok demo_load demo_preprocess demo_distinct by (rule experiment_ok)

lemma demo_round:
  "\<exists>st' s'. drop_round (demo_lib [''age'', ''sex'']) demo_X_train [Num 2, Num 3]
              (initial_state demo_X_train) demo_world_split = (Inr st', s')"
proof -
  have "loop_inv (columns demo_X_train) (initial_state demo_X_train)"
    unfolding initial_state_def using demo_train_distinct by (rule loop_inv_init)
  moreover have "feature_names (initial_state demo_X_train) \<noteq> []"
    by (simp add: initial_state_def demo_X_train_def columns_def)
  ultimately show ?thesis
    using demo_lib_ok by (intro drop_round_ok)
qed

lemma demo_chain_parts:
  "resplit_chain (demo_lib features) X y test_size ne md nf s parts s'
     \<Longrightarrow> parts = replicate (length parts)
           (map (\<lambda>(name, col). (name, drop 1 col)) X,
            map (\<lambda>(name, col). (name, take 1 col)) X, drop 1 y, take 1 y)"
proof (induction parts arbitrary: s)
  case Nil
  then show ?case by simp
next
  case (Cons p parts)
  obtain X_a X_b y_a y_b where p: "p = (X_a, X_b, y_a, y_b)"
    by (cases p) auto
  from Cons.prems obtain s_split s_fit where
    split: "train_test_split (demo_lib features) X y test_size s
              = (Inr (X_a, X_b, y_a, y_b), s_split)"
    and rest: "resplit_chain (demo_lib features) X y test_size ne md nf s_fit parts s'"
    unfolding p by auto
  from split have "p = (map (\<lambda>(name, col). (name, drop 1 col)) X,
            map (\<lambda>(name, col). (name, take 1 col)) X, drop 1 y, take 1 y)"
    unfolding p by (simp add: train_test_split_def demo_lib_def)
  with Cons.IH [OF rest] show ?case by simp
qed

section \<open>The elimination loop\<close>

text \<open>
  C1, as stated, fails.  The claim has the training data re-split once per run of the
  elimination loop.  On a training frame with the single column \<open>age\<close> the loop makes
  five calls of \<^verbatim>\<open>train_test_split\<close>, not one: the split is made inside
  \<^verbatim>\<open>multisplit_avg_random_forest_fit_predict\<close>, once per data-set iteration.
\<close>

theorem elimination_resplits_every_round_counterexample:
  "local_split_calls (demo_lib []) [(''age'', [Num 1, Num 2, Num 3])] [Num 1, Num 2, Num 3]
     demo_world \<noteq> 1"
proof -
  have "distinct (columns [(''age'', [Num 1, Num 2, Num 3])])"
    by (simp add: columns_def)
  from local_split_calls_eq [OF demo_lib_ok this] show ?thesis
    by simp
qed

text \<open>
  C1, amended.  In a run of \<^verbatim>\<open>drop_feature_experiment\<close> that returns, the preprocessed
  data set has been split once, before the loop, and never again.  What the loop re-splits
  is the training part of that split: every round \<open>j\<close> of the \<open>k\<close> rounds restricts the
  training frame to the \<open>k - j\<close> features still active and calls
  \<^verbatim>\<open>train_test_split\<close> five times on this frame and the training labels with test
  size 0.2; each of the five partitions is handed to exactly one averaged fit of five
  forests, before the next split is made.  These are all the library calls of the round,
  so the loop re-splits \<open>5 * k\<close> times.
\<close>

theorem elimination_resplits_every_round:
  assumes "load_dataset lib ''responder.csv'' = Inr dataset"
    and "preprocess_dataset lib dataset = Inr (labels, D)"
    and "train_test_split lib D labels 0.2 s = (Inr (X_train, X_test, y_train, y_test), s1)"
    and "distinct (columns X_train)"
    and "drop_feature_experiment lib s = (Inr drops, s')"
  shows "trace s1 = trace s @ [TrainTestSplit]
       \<and> trace s' = trace s1
           @ concat (replicate (length X_train)
               (concat (replicate 5 (TrainTestSplit # replicate 5 ForestFit))))
       \<and> local_split_calls lib X_train y_train s1 = 5 * length X_train
       \<and> (\<forall>j<length X_train. \<exists>st_j s_j st_next s_next X_active parts.
             drop_rounds lib X_train y_train j (initial_state X_train) s1 = (Inr st_j, s_j)
           \<and> drop_round lib X_train y_train st_j s_j = (Inr st_next, s_next)
           \<and> drop_rounds lib X_train y_train (Suc j) (initial_state X_train) s1
               = (Inr st_next, s_next)
           \<and> length (feature_names st_j) = length X_train - j
           \<and> select_columns X_train (feature_names st_j) = Inr X_active
           \<and> columns X_active = feature_names st_j
           \<and> length parts = 5
           \<and> resplit_chain lib X_active y_train 0.2 20 1 5 s_j parts s_next)"
proof -
  from experiment_returns [OF assms(1-3,5)] obtain st' where
    loop: "drop_loop lib X_train y_train (initial_state X_train) s1 = (Inr st', s')"
    by blast
  note summary = drop_loop_summary [OF assms(4) loop]
  from summary(5)
  have tr: "trace s' = trace s1 @ concat (replicate (length X_train) round_events)" .
  with loop have calls: "local_split_calls lib X_train y_train s1 = 5 * length X_train"
    by (simp add: local_split_calls_def split_calls_rounds)
  from assms(3) have outer: "trace s1 = trace s @ [TrainTestSplit]"
    by (rule train_test_split_trace)
  have inv0: "loop_inv (columns X_train) (initial_state X_train)"
    unfolding initial_state_def using assms(4) by (rule loop_inv_init)
  have len0: "length (feature_names (initial_state X_train)) = length X_train"
    by (simp add: initial_state_def columns_def)
  have rounds: "\<exists>st_j s_j st_next s_next X_active parts.
             drop_rounds lib X_train y_train j (initial_state X_train) s1 = (Inr st_j, s_j)
           \<and> drop_round lib X_train y_train st_j s_j = (Inr st_next, s_next)
           \<and> drop_rounds lib X_train y_train (Suc j) (initial_state X_train) s1
               = (Inr st_next, s_next)
           \<and> length (feature_names st_j) = length X_train - j
           \<and> select_columns X_train (feature_names st_j) = Inr X_active
           \<and> columns X_active = feature_names st_j
           \<and> length parts = 5
           \<and> resplit_chain lib X_active y_train 0.2 20 1 5 s_j parts s_next"
    if j: "j < length X_train" for j
  proof -
    from drop_rounds_round [OF summary(1) j] obtain st_j s_j st_next s_next where
      before: "drop_rounds lib X_train y_train j (initial_state X_train) s1 = (Inr st_j, s_j)"
      and round: "drop_round lib X_train y_train st_j s_j = (Inr st_next, s_next)"
      and after: "drop_rounds lib X_train y_train (Suc j) (initial_state X_train) s1
                    = (Inr st_next, s_next)"
      by blast
    from drop_rounds_returns [OF inv0 before] len0
    have len: "length (feature_names st_j) = length X_train - j" by simp
    from drop_round_chain [OF round] obtain X_active parts where
      sel: "select_columns X_train (feature_names st_j) = Inr X_active"
      and five: "length parts = 5"
      and chain: "resplit_chain lib X_active y_train 0.2 20 1 5 s_j parts s_next"
      by blast
    from select_columns_returns [OF assms(4) sel]
    have "columns X_active = feature_names st_j" by simp
    with before round after len sel five chain show ?thesis by blast
  qed
  from outer tr calls rounds show ?thesis
    unfolding round_events_def by simp
qed

theorem elimination_resplits_every_round_witness:
  "load_dataset (demo_lib [''age'', ''sex'']) ''responder.csv''
     = Inr (demo_table [''age'', ''sex''])
   \<and> preprocess_dataset (demo_lib [''age'', ''sex'']) (demo_table [''age'', ''sex''])
       = Inr (demo_labels, demo_features)
   \<and> train_test_split (demo_lib [''age'', ''sex'']) demo_features demo_labels 0.2 demo_world
       = (Inr (demo_X_train, demo_X_test, [Num 2, Num 3], [Num 1]), demo_world_split)
   \<and> distinct (columns demo_X_train)
   \<and> (\<exists>drops s'.
         drop_feature_experiment (demo_lib [''age'', ''sex'']) demo_world = (Inr drops, s')
       \<and> trace demo_world_split = trace demo_world @ [TrainTestSplit]
       \<and> trace s' = trace demo_world_split
           @ concat (replicate (length demo_X_train)
               (concat (replicate 5 (TrainTestSplit # replicate 5 ForestFit))))
       \<and> local_split_calls (demo_lib [''age'', ''sex'']) demo_X_train [Num 2, Num 3]
            demo_world_split = 5 * length demo_X_train)
   \<and> (\<exists>(st_next :: loop_state) s_next.
         drop_round (demo_lib [''age'', ''sex'']) demo_X_train [Num 2, Num 3]
           (initial_state demo_X_train) demo_world_split = (Inr st_next, s_next)
       \<and> select_columns demo_X_train (feature_names (initial_state demo_X_train))
           = Inr demo_X_train
       \<and> resplit_chain (demo_lib [''age'', ''sex'']) demo_X_train [Num 2, Num 3] 0.2 20 1 5
           demo_world_split
           (replicate 5 ([(''age'', [Num 3]), (''sex'', [Num 3])],
                         [(''age'', [Num 2]), (''sex'', [Num 2])], [Num 3], [Num 2]))
           s_next)"
proof -
  let ?lib = "demo_lib [''age'', ''sex'']"
  from demo_run obtain drops s' where
    run: "drop_feature_experiment ?lib demo_world = (Inr drops, s')"
    by blast
  note at_demo = elimination_resplits_every_round
    [OF demo_load demo_preprocess demo_split demo_train_distinct run]
  from at_demo run
  have traces: "\<exists>drops s'.
         drop_feature_experiment ?lib demo_world = (Inr drops, s')
       \<and> trace demo_world_split = trace demo_world @ [TrainTestSplit]
       \<and> trace s' = trace demo_world_split
           @ concat (replicate (length demo_X_train)
               (concat (replicate 5 (TrainTestSplit # replicate 5 ForestFit))))
       \<and> local_split_calls ?lib demo_X_train [Num 2, Num 3]
            demo_world_split = 5 * length demo_X_train"
    by blast
  have "0 < length demo_X_train" by (simp add: demo_X_train_def)
  with at_demo obtain st_0 s_0 st_next s_next X_active parts where
    before: "drop_rounds ?lib demo_X_train [Num 2, Num 3] 0 (initial_state demo_X_train)
               demo_world_split = (Inr st_0, s_0)"
    and round: "drop_round ?lib demo_X_train [Num 2, Num 3] st_0 s_0 = (Inr st_next, s_next)"
    and sel: "select_columns demo_X_train (feature_names st_0) = Inr X_active"
    and five: "length parts = 5"
    and chain: "resplit_chain ?lib X_active [Num 2, Num 3] 0.2 20 1 5 s_0 parts s_next"
    by blast
  from before have st_0: "st_0 = initial_state demo_X_train" and s_0: "s_0 = demo_world_split"
    by (simp_all add: py_return_def)
  have sel0: "select_columns demo_X_train (feature_names (initial_state demo_X_train))
                = Inr demo_X_train"
    by (simp add: select_columns_def initial_state_def columns_def demo_X_train_def)
  with sel st_0 have X_active: "X_active = demo_X_train" by simp
  from demo_chain_parts [OF chain] five X_active
  have "parts = replicate 5 ([(''age'', [Num 3]), (''sex'', [Num 3])],
                         [(''age'', [Num 2]), (''sex'', [Num 2])], [Num 3], [Num 2])"
    by (simp add: demo_X_train_def)
  with round chain st_0 s_0 X_active sel0
  have first_round: "\<exists>(st_next :: loop_state) s_next.
         drop_round ?lib demo_X_train [Num 2, Num 3]
           (initial_state demo_X_train) demo_world_split = (Inr st_next, s_next)
       \<and> select_columns demo_X_train (feature_names (initial_state demo_X_train))
           = Inr demo_X_train
       \<and> resplit_chain ?lib demo_X_train [Num 2, Num 3] 0.2 20 1 5
           demo_world_split
           (replicate 5 ([(''age'', [Num 3]), (''sex'', [Num 3])],
                         [(''age'', [Num 2]), (''sex'', [Num 2])], [Num 3], [Num 2]))
           s_next"
    by blast
  from demo_load demo_preprocess demo_split demo_train_distinct traces first_round
  show ?thesis by (intro conjI)
qed

text \<open>
  C2: from \<open>k \<ge> 1\<close> features the loop ends after exactly \<open>k\<close> rounds.  With a library
  whose calls succeed the experiment returns.  Whenever it returns, the loop has returned
  what \<open>k\<close> runs of its body return, with an empty active list and \<open>k\<close> entries in
  \<open>results\<close>; after \<open>k - 1\<close> rounds exactly one feature \<open>f\<close> was active, and the last
  round has dropped it with the recorded count 0.  The returned record has exactly the
  original feature names as keys, in column order, each with a one-element list.
\<close>

theorem elimination_runs_k_rounds:
  assumes "load_dataset lib ''responder.csv'' = Inr dataset"
    and "preprocess_dataset lib dataset = Inr (labels, D)"
    and "train_test_split lib D labels 0.2 s = (Inr (X_train, X_test, y_train, y_test), s1)"
    and "distinct (columns X_train)" and "length X_train = k" and "1 \<le> k"
  shows "(lib_ok lib \<longrightarrow> (\<exists>drops s'. drop_feature_experiment lib s = (Inr drops, s')))
       \<and> (\<forall>drops s'. drop_feature_experiment lib s = (Inr drops, s') \<longrightarrow>
            (\<exists>st_last s_last f st'.
                drop_rounds lib X_train y_train (k - 1) (initial_state X_train) s1
                  = (Inr st_last, s_last)
              \<and> feature_names st_last = [f]
              \<and> drop_round lib X_train y_train st_last s_last = (Inr st', s')
              \<and> drop_rounds lib X_train y_train k (initial_state X_train) s1 = (Inr st', s')
              \<and> drop_loop lib X_train y_train (initial_state X_train) s1 = (Inr st', s')
              \<and> feature_names st' = [] \<and> length (results st') = k
              \<and> drops = feature_drop_iterations st'
              \<and> map_of drops f = Some [0]
              \<and> map fst drops = columns X_train
              \<and> (\<forall>g\<in>set (columns X_train). \<exists>c. map_of drops g = Some [c])))"
proof (intro conjI allI impI)
  assume ok: "lib_ok lib"
  from drop_loop_ok [OF ok assms(4), of y_train s1] obtain st' s' where
    "drop_loop lib X_train y_train (initial_state X_train) s1 = (Inr st', s')"
    by blast
  then have "drop_feature_experiment lib s = (Inr (feature_drop_iterations st'), s')"
    unfolding experiment_unfold [OF assms(1-3)] by simp
  then show "\<exists>drops s'. drop_feature_experiment lib s = (Inr drops, s')"
    by blast
next
  fix drops s'
  assume run: "drop_feature_experiment lib s = (Inr drops, s')"
  from experiment_returns [OF assms(1-3) run] obtain st' where
    loop: "drop_loop lib X_train y_train (initial_state X_train) s1 = (Inr st', s')"
    and drops: "drops = feature_drop_iterations st'"
    by blast
  note summary = drop_loop_summary [OF assms(4) loop]
  from assms(5,6) have k: "length X_train = Suc (k - 1)" by simp
  from summary(1) have rounds: "drop_rounds lib X_train y_train (Suc (k - 1)) (initial_state X_train) s1
                              = (Inr st', s')"
    unfolding k .
  from drop_rounds_last_returns [OF rounds] obtain st_last s_last where
    before: "drop_rounds lib X_train y_train (k - 1) (initial_state X_train) s1
               = (Inr st_last, s_last)"
    and last: "drop_round lib X_train y_train st_last s_last = (Inr st', s')"
    by blast
  have inv0: "loop_inv (columns X_train) (initial_state X_train)"
    unfolding initial_state_def using assms(4) by (rule loop_inv_init)
  have len0: "length (feature_names (initial_state X_train)) = k"
    using assms(5) by (simp add: initial_state_def columns_def)
  from drop_rounds_returns [OF inv0 before] len0 assms(6)
  have inv_last: "loop_inv (columns X_train) st_last"
    and "length (feature_names st_last) = 1"
    by simp_all
  then obtain f where one: "feature_names st_last = [f]"
    by (cases "feature_names st_last") auto
  from drop_round_returns_inv [OF inv_last last] one
  have zero: "map_of (feature_drop_iterations st') f = Some [0]"
    by auto
  from final_record [OF summary(2,3)] have
    keys: "map fst (feature_drop_iterations st') = columns X_train"
    and single: "\<forall>g\<in>set (columns X_train).
                   \<exists>c. map_of (feature_drop_iterations st') g = Some [c]"
    by blast+
  from rounds k assms(5) have rounds_k:
    "drop_rounds lib X_train y_train k (initial_state X_train) s1 = (Inr st', s')"
    by simp
  from before one last rounds_k loop summary(3,4) assms(5) drops zero keys single
  show "\<exists>st_last s_last f st'.
          drop_rounds lib X_train y_train (k - 1) (initial_state X_train) s1
            = (Inr st_last, s_last)
        \<and> feature_names st_last = [f]
        \<and> drop_round lib X_train y_train st_last s_last = (Inr st', s')
        \<and> drop_rounds lib X_train y_train k (initial_state X_train) s1 = (Inr st', s')
        \<and> drop_loop lib X_train y_train (initial_state X_train) s1 = (Inr st', s')
        \<and> feature_names st' = [] \<and> length (results st') = k
        \<and> drops = feature_drop_iterations st'
        \<and> map_of drops f = Some [0]
        \<and> map fst drops = columns X_train
        \<and> (\<forall>g\<in>set (columns X_train). \<exists>c. map_of drops g = Some [c])"
    by blast
qed

theorem elimination_runs_k_rounds_witness:
  "load_dataset (demo_lib [''age'', ''sex'']) ''responder.csv''
     = Inr (demo_table [''age'', ''sex''])
   \<and> preprocess_dataset (demo_lib [''age'', ''sex'']) (demo_table [''age'', ''sex''])
       = Inr (demo_labels, demo_features)
   \<and> train_test_split (demo_lib [''age'', ''sex'']) demo_features demo_labels 0.2 demo_world
       = (Inr (demo_X_train, demo_X_test, [Num 2, Num 3], [Num 1]), demo_world_split)
   \<and> distinct (columns demo_X_train) \<and> length demo_X_train = 2 \<and> (1::nat) \<le> 2
   \<and> lib_ok (demo_lib [''age'', ''sex''])
   \<and> (\<exists>(st' :: loop_state) s'.
         drop_feature_experiment (demo_lib [''age'', ''sex'']) demo_world
           = (Inr (feature_drop_iterations st'), s')
       \<and> drop_rounds (demo_lib [''age'', ''sex'']) demo_X_train [Num 2, Num 3] 2
            (initial_state demo_X_train) demo_world_split = (Inr st', s')
       \<and> feature_names st' = [] \<and> length (results st') = 2
       \<and> map fst (feature_drop_iterations st') = columns demo_X_train)"
proof -
  have len: "length demo_X_train = 2" by (simp add: demo_X_train_def)
  have one: "(1::nat) \<le> 2" by simp
  note at_demo = elimination_runs_k_rounds
    [OF demo_load demo_preprocess demo_split demo_train_distinct len one]
  from at_demo demo_lib_ok obtain drops s' where
    run: "drop_feature_experiment (demo_lib [''age'', ''sex'']) demo_world = (Inr drops, s')"
    by blast
  with at_demo have "\<exists>(st' :: loop_state) s'.
         drop_feature_experiment (demo_lib [''age'', ''sex'']) demo_world
           = (Inr (feature_drop_iterations st'), s')
       \<and> drop_rounds (demo_lib [''age'', ''sex'']) demo_X_train [Num 2, Num 3] 2
            (initial_state demo_X_train) demo_world_split = (Inr st', s')
       \<and> feature_names st' = [] \<and> length (results st') = 2
       \<and> map fst (feature_drop_iterations st') = columns demo_X_train"
    by blast
  with demo_load demo_preprocess demo_split demo_train_distinct len one demo_lib_ok
  show ?thesis by (intro conjI)
qed

text \<open>
  C3: the values recorded in one run over \<open>k\<close> features, sorted in descending order, are
  \<open>k - 1, k - 2, \<dots>, 0\<close>: each of these numbers once.
\<close>

theorem recorded_counts_count_down:
  assumes "load_dataset lib ''responder.csv'' = Inr dataset"
    and "preprocess_dataset lib dataset = Inr (labels, D)"
    and "train_test_split lib D labels 0.2 s = (Inr (X_train, X_test, y_train, y_test), s1)"
    and "distinct (columns X_train)"
    and "drop_feature_experiment lib s = (Inr drops, s')"
  shows "rev (sort (concat (map snd drops))) = rev [0..<length X_train]"
proof -
  from experiment_returns [OF assms(1-3,5)] obtain st' where
    loop: "drop_loop lib X_train y_train (initial_state X_train) s1 = (Inr st', s')"
    and drops: "drops = feature_drop_iterations st'"
    by blast
  note summary = drop_loop_summary [OF assms(4) loop]
  from final_record(3) [OF summary(2,3)]
  have "sort (concat (map snd drops)) = [0..<length X_train]"
    by (simp add: drops columns_def)
  then show ?thesis by simp
qed

theorem recorded_counts_count_down_witness:
  "load_dataset (demo_lib [''age'', ''sex'']) ''responder.csv''
     = Inr (demo_table [''age'', ''sex''])
   \<and> preprocess_dataset (demo_lib [''age'', ''sex'']) (demo_table [''age'', ''sex''])
       = Inr (demo_labels, demo_features)
   \<and> train_test_split (demo_lib [''age'', ''sex'']) demo_features demo_labels 0.2 demo_world
       = (Inr (demo_X_train, demo_X_test, [Num 2, Num 3], [Num 1]), demo_world_split)
   \<and> distinct (columns demo_X_train)
   \<and> (\<exists>drops s'.
         drop_feature_experiment (demo_lib [''age'', ''sex'']) demo_world = (Inr drops, s')
       \<and> rev (sort (concat (map snd drops))) = [1, 0])"
proof -
  from demo_run obtain drops s' where
    run: "drop_feature_experiment (demo_lib [''age'', ''sex'']) demo_world = (Inr drops, s')"
    by blast
  from recorded_counts_count_down
    [OF demo_load demo_preprocess demo_split demo_train_distinct run]
  have "rev (sort (concat (map snd drops))) = [1, 0]"
    by (simp add: demo_X_train_def upt_rec)
  with run have "\<exists>drops s'.
         drop_feature_experiment (demo_lib [''age'', ''sex'']) demo_world = (Inr drops, s')
       \<and> rev (sort (concat (map snd drops))) = [1, 0]"
    by blast
  with demo_load demo_preprocess demo_split demo_train_distinct show ?thesis
    by (intro conjI)
qed

text \<open>
  C4: in every round that returns, the feature removed from the active list is the one
  at the first index \<open>i\<close> of the least averaged importance, and the value appended to
  the list recorded for that feature is the length of the active list after the removal.
\<close>

theorem round_drops_first_least_important:
  fixes st :: loop_state
  assumes "distinct (columns X_train)"
    and "drop_round lib X_train y_train st s = (Inr st', s')"
  shows "\<exists>X_active training_loss validation_loss importance i recorded.
           select_columns X_train (feature_names st) = Inr X_active
         \<and> multisplit_avg_random_forest_fit_predict lib X_active y_train 20 1 5 5 s
             = (Inr (training_loss, validation_loss, (feature_names st, importance)), s')
         \<and> length importance = length (feature_names st)
         \<and> i < length (feature_names st)
         \<and> (\<forall>j<length importance. importance ! i \<le> importance ! j)
         \<and> (\<forall>j<i. importance ! i < importance ! j)
         \<and> feature_names st' = remove1 (feature_names st ! i) (feature_names st)
         \<and> map_of (feature_drop_iterations st) (feature_names st ! i) = Some recorded
         \<and> feature_drop_iterations st'
             = AList.update (feature_names st ! i) (recorded @ [length (feature_names st')])
                 (feature_drop_iterations st)"
proof -
  let ?fs = "feature_names st"
  from drop_round_returns [OF assms]
  obtain X_active tr_loss va_loss and imps :: "real list" and i l where
    sel: "select_columns X_train ?fs = Inr X_active"
    and ms: "multisplit_avg_random_forest_fit_predict lib X_active y_train 20 1 5 5 s
               = (Inr (tr_loss, va_loss, (?fs, imps)), s')"
    and len: "length imps = length ?fs" and i: "i < length imps"
    and least: "\<forall>j<length imps. imps ! i \<le> imps ! j"
    and first: "\<forall>j<i. imps ! i < imps ! j"
    and l: "map_of (feature_drop_iterations st) (?fs ! i) = Some l"
    and st': "st' = \<lparr>results = results st @ [(tr_loss, va_loss)],
                  feature_names = remove1 (?fs ! i) ?fs,
                  feature_drop_iterations =
                    AList.update (?fs ! i) (l @ [length ?fs - 1]) (feature_drop_iterations st)\<rparr>"
    by blast
  from i len have ifs: "i < length ?fs" by simp
  then have "?fs ! i \<in> set ?fs" by simp
  then have "length (feature_names st') = length ?fs - 1"
    by (simp add: st' length_remove1)
  then have "feature_drop_iterations st'
               = AList.update (?fs ! i) (l @ [length (feature_names st')])
                   (feature_drop_iterations st)"
    by (simp add: st')
  moreover have "feature_names st' = remove1 (?fs ! i) ?fs"
    by (simp add: st')
  ultimately show ?thesis
    using sel ms len ifs least first l by blast
qed

theorem round_drops_first_least_important_witness:
  "distinct (columns demo_X_train)
   \<and> (\<exists>st' s'.
         drop_round (demo_lib [''age'', ''sex'']) demo_X_train [Num 2, Num 3]
           (initial_state demo_X_train) demo_world_split = (Inr st', s')
       \<and> (\<exists>i recorded.
             i < length (feature_names (initial_state demo_X_train))
           \<and> feature_names st'
                = remove1 (feature_names (initial_state demo_X_train) ! i)
                    (feature_names (initial_state demo_X_train))
           \<and> feature_drop_iterations st'
                = AList.update (feature_names (initial_state demo_X_train) ! i)
                    (recorded @ [length (feature_names st')])
                    (feature_drop_iterations (initial_state demo_X_train))))"
proof -
  from demo_round obtain st' s' where
    run: "drop_round (demo_lib [''age'', ''sex'']) demo_X_train [Num 2, Num 3]
            (initial_state demo_X_train) demo_world_split = (Inr st', s')"
    by blast
  from round_drops_first_least_important [OF demo_train_distinct run]
  have "\<exists>i recorded.
             i < length (feature_names (initial_state demo_X_train))
           \<and> feature_names st'
                = remove1 (feature_names (initial_state demo_X_train) ! i)
                    (feature_names (initial_state demo_X_train))
           \<and> feature_drop_iterations st'
                = AList.update (feature_names (initial_state demo_X_train) ! i)
                    (recorded @ [length (feature_names st')])
                    (feature_drop_iterations (initial_state demo_X_train))"
    by blast
  with run demo_train_distinct show ?thesis by blast
qed

lemma drop_loop_empty:
  "feature_names st = [] \<Longrightarrow> drop_loop lib X y st s = (Inr st, s)"
  by (simp add: drop_loop.simps)

lemma empty_run:
  assumes "load_dataset lib ''responder.csv'' = Inr dataset"
    and "preprocess_dataset lib dataset = Inr (labels, D)"
    and "train_test_split lib D labels 0.2 s = (Inr (X_train, X_test, y_train, y_test), s1)"
    and "columns X_train = []"
  shows "drop_feature_experiment lib s = (Inr [], s1)"
proof -
  have "feature_names (initial_state X_train) = []"
    and "feature_drop_iterations (initial_state X_train) = []"
    using assms(4) by (simp_all add: initial_state_def dict_from_keys_def)
  with assms(1-3) show ?thesis
    by (simp add: drop_feature_experiment_def py_bind_def py_lift_def py_return_def
        drop_loop_empty)
qed

lemma demo_impute_redundant_only:
  "impute_dataset (demo_table [])
     = Inr (map (\<lambda>name. (name, [Num 1, Num 2, Num 3])) redundant_features)"
  by (simp add: impute_dataset_def demo_table_def redundant_features_def series_median_def
      median_demo fillna_def fillna_series_def)

lemma demo_preprocess_redundant_only:
  "preprocess_dataset (demo_lib []) (demo_table []) = Inr (demo_labels, [])"
  unfolding preprocess_dataset_def demo_impute_redundant_only
  by (simp add: demo_lib_def remove_redundant_features_def get_column_def df_drop_def
      redundant_features_def columns_def demo_labels_def)

lemma demo_split_redundant_only:
  "train_test_split (demo_lib []) [] demo_labels 0.2 demo_world
     = (Inr ([], [], drop 1 demo_labels, take 1 demo_labels),
        \<lparr>rng = 1, trace = [TrainTestSplit]\<rparr>)"
  by (simp add: train_test_split_def demo_lib_def demo_world_def)

text \<open>
  C8, as stated, fails.  The claim has a run over no features raise a configuration
  error.  For a table that holds the ten redundant columns only, no feature is left after
  preprocessing, and the experiment returns the empty record without raising.
\<close>

theorem no_features_raises_counterexample:
  "drop_feature_experiment (demo_lib []) demo_world
     = (Inr [], \<lparr>rng = 1, trace = [TrainTestSplit]\<rparr>)"
  by (rule empty_run [OF demo_load demo_preprocess_redundant_only demo_split_redundant_only])
    (simp add: columns_def)

text \<open>
  C8, amended.  When the training frame has no columns the loop body is not run: the
  experiment returns the empty drop record, raises nothing, and makes no library call
  after the split of the data set.
\<close>

theorem no_features_returns_empty_record:
  assumes "load_dataset lib ''responder.csv'' = Inr dataset"
    and "preprocess_dataset lib dataset = Inr (labels, D)"
    and "train_test_split lib D labels 0.2 s = (Inr (X_train, X_test, y_train, y_test), s1)"
    and "columns X_train = []"
  shows "drop_feature_experiment lib s = (Inr [], s1)"
  using assms by (rule empty_run)

theorem no_features_returns_empty_record_witness:
  "load_dataset (demo_lib []) ''responder.csv'' = Inr (demo_table [])
   \<and> preprocess_dataset (demo_lib []) (demo_table []) = Inr (demo_labels, [])
   \<and> train_test_split (demo_lib []) [] demo_labels 0.2 demo_world
       = (Inr ([], [], drop 1 demo_labels, take 1 demo_labels),
          \<lparr>rng = 1, trace = [TrainTestSplit]\<rparr>)
   \<and> columns ([] :: frame) = []
   \<and> drop_feature_experiment (demo_lib []) demo_world
       = (Inr [], \<lparr>rng = 1, trace = [TrainTestSplit]\<rparr>)"
proof -
  have c: "columns ([] :: frame) = []" by (simp add: columns_def)
  from no_features_returns_empty_record
    [OF demo_load demo_preprocess_redundant_only demo_split_redundant_only c]
    demo_load demo_preprocess_redundant_only demo_split_redundant_only c
  show ?thesis by (intro conjI)
qed

section \<open>Imputation and loading\<close>

lemma df_median_numeric:
  "numeric_frame df \<Longrightarrow>
   df_median df = Inr (map (\<lambda>(name, col). (name, median_of (numbers col))) df)"
  by (induction df) (auto simp: numeric_frame_def series_median_def)

lemma map_of_column_values:
  "distinct (map fst df) \<Longrightarrow> (name, col) \<in> set df
     \<Longrightarrow> map_of (map (\<lambda>(n, c). (n, f c)) df) name = Some (f col)"
  by (induction df) (auto simp: rev_image_eqI)

lemma fillna_series_median:
  "fillna_series (median_of (numbers col)) col = fill_missing_with_median col"
proof (cases "median_of (numbers col) = NA")
  case True
  then have "fill_missing_with_median col = map (\<lambda>c. c) col"
    unfolding fill_missing_with_median_def by (intro map_cong) auto
  with True show ?thesis by (simp add: fillna_series_def)
next
  case False
  then show ?thesis by (simp add: fillna_series_def fill_missing_with_median_def)
qed

lemma impute_numeric:
  assumes "distinct (columns dataset)" and "numeric_frame dataset"
  shows "impute_dataset dataset
           = Inr (map (\<lambda>(name, col). (name, fill_missing_with_median col)) dataset)"
proof -
  let ?med = "map (\<lambda>(name, col). (name, median_of (numbers col))) dataset"
  have "fillna dataset ?med = map (\<lambda>(name, col). (name, fill_missing_with_median col)) dataset"
    unfolding fillna_def
  proof (rule map_cong [OF refl])
    fix p assume p: "p \<in> set dataset"
    obtain name col where [simp]: "p = (name, col)" by (cases p)
    from assms(1) p have "map_of ?med name = Some (median_of (numbers col))"
      using map_of_column_values [of dataset name col "\<lambda>c. median_of (numbers c)"]
      by (simp add: columns_def)
    then show "(case p of (name, col) \<Rightarrow>
                  (name, case map_of ?med name of None \<Rightarrow> col | Some v \<Rightarrow> fillna_series v col))
               = (case p of (name, col) \<Rightarrow> (name, fill_missing_with_median col))"
      by (simp add: fillna_series_median)
  qed
  with df_median_numeric [OF assms(2)] show ?thesis
    by (simp add: impute_dataset_def)
qed

lemma sorted_filter_less_prefix:
  fixes ys :: "real list"
  assumes "sorted ys" and "p < length ys" and "v \<le> ys ! p"
  shows "length (filter (\<lambda>x. x < v) ys) \<le> p"
proof -
  have "filter (\<lambda>x. x < v) (drop p ys) = []"
  proof (rule filter_False, rule ballI)
    fix x assume "x \<in> set (drop p ys)"
    then obtain i where "i < length (drop p ys)" "x = drop p ys ! i"
      by (auto simp: in_set_conv_nth)
    then have "x = ys ! (p + i)" "p + i < length ys" by auto
    with assms(1,2) have "ys ! p \<le> x"
      by (simp add: sorted_nth_mono)
    with assms(3) show "\<not> x < v" by simp
  qed
  then have "filter (\<lambda>x. x < v) ys = filter (\<lambda>x. x < v) (take p ys)"
    by (metis append_take_drop_id filter_append self_append_conv)
  moreover have "length (filter (\<lambda>x. x < v) (take p ys)) \<le> length (take p ys)"
    by (rule length_filter_le)
  moreover have "length (take p ys) = p"
    using assms(2) by simp
  ultimately show ?thesis by simp
qed

lemma sorted_filter_greater_suffix:
  fixes ys :: "real list"
  assumes "sorted ys" and "p < length ys" and "ys ! p \<le> v"
  shows "length (filter (\<lambda>x. v < x) ys) \<le> length ys - Suc p"
proof -
  have "filter (\<lambda>x. v < x) (take (Suc p) ys) = []"
  proof (rule filter_False, rule ballI)
    fix x assume "x \<in> set (take (Suc p) ys)"
    then obtain i where "i < length (take (Suc p) ys)" "x = take (Suc p) ys ! i"
      by (auto simp: in_set_conv_nth)
    then have "x = ys ! i" "i \<le> p" by auto
    with assms(1,2) have "x \<le> ys ! p"
      by (simp add: sorted_nth_mono)
    with assms(3) show "\<not> v < x" by simp
  qed
  then have "filter (\<lambda>x. v < x) ys = filter (\<lambda>x. v < x) (drop (Suc p) ys)"
    by (metis append_take_drop_id filter_append self_append_conv2)
  moreover have "length (filter (\<lambda>x. v < x) (drop (Suc p) ys)) \<le> length (drop (Suc p) ys)"
    by (rule length_filter_le)
  moreover have "length (drop (Suc p) ys) = length ys - Suc p"
    by simp
  ultimately show ?thesis by simp
qed

lemma median_of_splits_in_half:
  assumes "xs \<noteq> []"
  shows "\<exists>m. median_of xs = Num m
           \<and> 2 * length (filter (\<lambda>x. x < m) xs) \<le> length xs
           \<and> 2 * length (filter (\<lambda>x. m < x) xs) \<le> length xs"
proof -
  define ys where "ys = sort xs"
  define n where "n = length ys"
  have sorted: "sorted ys" and len: "length ys = length xs" and ms: "mset ys = mset xs"
    by (simp_all add: ys_def)
  have cnt: "length (filter P xs) = length (filter P ys)" for P :: "real \<Rightarrow> bool"
    using ms by (metis mset_filter size_mset)
  from assms len have npos: "0 < n" by (simp add: n_def)
  show ?thesis
  proof (cases "odd n")
    case True
    define m where "m = ys ! (n div 2)"
    have p: "n div 2 < length ys" using npos by (simp add: n_def)
    have "median_of xs = Num m"
      using assms True by (simp add: median_of_def m_def ys_def n_def Let_def)
    moreover have "length (filter (\<lambda>x. x < m) ys) \<le> n div 2"
      using sorted_filter_less_prefix [OF sorted p] by (simp add: m_def)
    then have "2 * length (filter (\<lambda>x. x < m) xs) \<le> length xs"
      unfolding cnt using len n_def by linarith
    moreover have "length (filter (\<lambda>x. m < x) ys) \<le> length ys - Suc (n div 2)"
      using sorted_filter_greater_suffix [OF sorted p] by (simp add: m_def)
    then have "2 * length (filter (\<lambda>x. m < x) xs) \<le> length xs"
      unfolding cnt using len n_def True by (elim oddE) simp
    ultimately show ?thesis by blast
  next
    case False
    define a where "a = ys ! (n div 2 - 1)"
    define b where "b = ys ! (n div 2)"
    define m where "m = (a + b) / 2"
    from False npos have n2: "2 \<le> n" by presburger
    then have p: "n div 2 < length ys" and q: "n div 2 - 1 < length ys"
      by (simp_all add: n_def)
    have "a \<le> b"
      unfolding a_def b_def using sorted p by (intro sorted_nth_mono) simp_all
    then have am: "a \<le> m" and mb: "m \<le> b" by (simp_all add: m_def)
    have "median_of xs = Num m"
      using assms False by (simp add: median_of_def m_def a_def b_def ys_def n_def Let_def)
    moreover have "length (filter (\<lambda>x. x < m) ys) \<le> n div 2"
      using sorted_filter_less_prefix [OF sorted p] mb by (simp add: b_def)
    then have "2 * length (filter (\<lambda>x. x < m) xs) \<le> length xs"
      unfolding cnt using len n_def by linarith
    ultimately have half: "median_of xs = Num m"
      "2 * length (filter (\<lambda>x. x < m) xs) \<le> length xs"
      by simp_all
    have "length (filter (\<lambda>x. m < x) ys) \<le> length ys - Suc (n div 2 - 1)"
      using sorted_filter_greater_suffix [OF sorted q] am by (simp add: a_def)
    moreover from False obtain h where "n = 2 * h"
      by (auto elim: evenE)
    ultimately have "2 * length (filter (\<lambda>x. m < x) xs) \<le> length xs"
      unfolding cnt using len n_def n2 by simp
    with half show ?thesis by blast
  qed
qed

lemma numbers_are_present_cells:
  "\<not> list_ex is_text col \<Longrightarrow> map Num (numbers col) = filter (\<lambda>c. c \<noteq> NA) col"
  by (induction col rule: numbers.induct) simp_all

lemma median_of_sorted_middle:
  assumes "xs \<noteq> []"
  shows "\<exists>ys m. sorted ys \<and> mset ys = mset xs \<and> median_of xs = Num m
           \<and> m = (if odd (length ys) then ys ! (length ys div 2)
                  else (ys ! (length ys div 2 - 1) + ys ! (length ys div 2)) / 2)
           \<and> 2 * length (filter (\<lambda>x. x < m) ys) \<le> length ys
           \<and> 2 * length (filter (\<lambda>x. m < x) ys) \<le> length ys"
proof -
  define ys where "ys = sort xs"
  have sorted: "sorted ys" and len: "length ys = length xs" and ms: "mset ys = mset xs"
    by (simp_all add: ys_def)
  have cnt: "length (filter P xs) = length (filter P ys)" for P :: "real \<Rightarrow> bool"
    using ms by (metis mset_filter size_mset)
  from median_of_splits_in_half [OF assms] obtain m where
    m: "median_of xs = Num m"
    and lo: "2 * length (filter (\<lambda>x. x < m) xs) \<le> length xs"
    and hi: "2 * length (filter (\<lambda>x. m < x) xs) \<le> length xs"
    by blast
  from m assms have "m = (if odd (length ys) then ys ! (length ys div 2)
                  else (ys ! (length ys div 2 - 1) + ys ! (length ys div 2)) / 2)"
    by (simp add: median_of_def Let_def ys_def split: if_splits)
  moreover from lo have "2 * length (filter (\<lambda>x. x < m) ys) \<le> length ys"
    unfolding cnt len .
  moreover from hi have "2 * length (filter (\<lambda>x. m < x) ys) \<le> length ys"
    unfolding cnt len .
  ultimately show ?thesis using sorted ms m by blast
qed

lemma fill_missing_cells:
  assumes "\<not> list_ex is_text col"
  shows "length (fill_missing_with_median col) = length col"
    and "\<And>i. i < length col \<Longrightarrow> col ! i \<noteq> NA \<Longrightarrow> fill_missing_with_median col ! i = col ! i"
    and "NA \<notin> set col \<Longrightarrow> fill_missing_with_median col = col"
    and "\<forall>c\<in>set col. c = NA \<Longrightarrow> fill_missing_with_median col = col"
    and "\<exists>c\<in>set col. c \<noteq> NA \<Longrightarrow>
           \<exists>ys m. sorted ys \<and> mset (map Num ys) = mset (filter (\<lambda>c. c \<noteq> NA) col)
             \<and> m = (if odd (length ys) then ys ! (length ys div 2)
                    else (ys ! (length ys div 2 - 1) + ys ! (length ys div 2)) / 2)
             \<and> 2 * length (filter (\<lambda>x. x < m) ys) \<le> length ys
             \<and> 2 * length (filter (\<lambda>x. m < x) ys) \<le> length ys
             \<and> (\<forall>i<length col. col ! i = NA \<longrightarrow> fill_missing_with_median col ! i = Num m)"
proof -
  note present = numbers_are_present_cells [OF assms]
  show "length (fill_missing_with_median col) = length col"
    by (simp add: fill_missing_with_median_def)
  show "fill_missing_with_median col ! i = col ! i" if "i < length col" "col ! i \<noteq> NA" for i
    using that by (simp add: fill_missing_with_median_def)
  show "fill_missing_with_median col = col" if "NA \<notin> set col"
    unfolding fill_missing_with_median_def using that by (intro map_idI) auto
  show "fill_missing_with_median col = col" if all: "\<forall>c\<in>set col. c = NA"
  proof -
    from all have "filter (\<lambda>c. c \<noteq> NA) col = []" by (simp add: filter_empty_conv)
    with present have "numbers col = []" by simp
    then have "median_of (numbers col) = NA" by (simp add: median_of_def)
    then show ?thesis
      unfolding fill_missing_with_median_def by (intro map_idI) auto
  qed
  show "\<exists>ys m. sorted ys \<and> mset (map Num ys) = mset (filter (\<lambda>c. c \<noteq> NA) col)
             \<and> m = (if odd (length ys) then ys ! (length ys div 2)
                    else (ys ! (length ys div 2 - 1) + ys ! (length ys div 2)) / 2)
             \<and> 2 * length (filter (\<lambda>x. x < m) ys) \<le> length ys
             \<and> 2 * length (filter (\<lambda>x. m < x) ys) \<le> length ys
             \<and> (\<forall>i<length col. col ! i = NA \<longrightarrow> fill_missing_with_median col ! i = Num m)"
    if some: "\<exists>c\<in>set col. c \<noteq> NA"
  proof -
    from some have "filter (\<lambda>c. c \<noteq> NA) col \<noteq> []" by (simp add: filter_empty_conv)
    with present have ne: "numbers col \<noteq> []" by auto
    from median_of_sorted_middle [OF ne] obtain ys m where
      sorted: "sorted ys" and ms: "mset ys = mset (numbers col)"
      and med: "median_of (numbers col) = Num m"
      and mid: "m = (if odd (length ys) then ys ! (length ys div 2)
                    else (ys ! (length ys div 2 - 1) + ys ! (length ys div 2)) / 2)"
      and lo: "2 * length (filter (\<lambda>x. x < m) ys) \<le> length ys"
      and hi: "2 * length (filter (\<lambda>x. m < x) ys) \<le> length ys"
      by blast
    from ms have "mset (map Num ys) = mset (map Num (numbers col))"
      by (metis mset_map)
    with present have "mset (map Num ys) = mset (filter (\<lambda>c. c \<noteq> NA) col)"
      by simp
    moreover have "\<forall>i<length col. col ! i = NA \<longrightarrow> fill_missing_with_median col ! i = Num m"
      by (simp add: fill_missing_with_median_def med)
    ultimately show ?thesis using sorted mid lo hi by blast
  qed
qed

lemma fill_missing_median_imputed:
  assumes "\<not> list_ex is_text col"
  shows "median_imputed col (fill_missing_with_median col)"
  unfolding median_imputed_def
  using fill_missing_cells [OF assms] by (intro conjI allI impI) blast+

lemma sorted_values_unique:
  fixes ys xs :: "real list"
  assumes "sorted ys" and "mset (map Num ys) = mset (map Num xs)"
  shows "ys = sort xs"
proof -
  let ?v = "\<lambda>c. case c of Num x \<Rightarrow> x | _ \<Rightarrow> 0"
  from assms(2) have "image_mset ?v (mset (map Num ys)) = image_mset ?v (mset (map Num xs))"
    by simp
  then have "mset ys = mset xs"
    by (simp add: multiset.map_comp comp_def)
  with assms(1) show ?thesis
    by (simp add: properties_for_sort)
qed

lemma frame_of_four:
  assumes "map fst df = [a, b, c, d]"
  shows "df = [(a, snd (df ! 0)), (b, snd (df ! 1)), (c, snd (df ! 2)), (d, snd (df ! 3))]"
proof -
  from assms obtain p q r t where "df = [p, q, r, t]"
    by (auto simp: map_eq_Cons_conv)
  with assms show ?thesis by (auto simp: prod_eq_iff)
qed

lemma list_of_five:
  assumes "length xs = 5"
  shows "xs = [xs ! 0, xs ! 1, xs ! 2, xs ! 3, xs ! 4]"
proof -
  from assms obtain a b c d e where "xs = [a, b, c, d, e]"
    by (auto simp: length_Suc_conv eval_nat_numeral)
  then show ?thesis by simp
qed

text \<open>
  C7: on a table of numeric columns with distinct names, imputation returns a table with
  the same columns in which every column is imputed by its median: every missing cell has
  become the median of the values of its column that are not missing, every other cell is
  kept, a column without missing cells is left as it is, and the cells of a column
  without any value stay missing.
\<close>

theorem impute_fills_with_column_median:
  assumes "distinct (columns dataset)" and "numeric_frame dataset"
  shows "\<exists>out. impute_dataset dataset = Inr out
           \<and> columns out = columns dataset
           \<and> (\<forall>j<length dataset. median_imputed (snd (dataset ! j)) (snd (out ! j)))"
proof -
  define out where "out = map (\<lambda>(name, col). (name, fill_missing_with_median col)) dataset"
  have run: "impute_dataset dataset = Inr out"
    unfolding out_def using assms by (rule impute_numeric)
  have cols: "columns out = columns dataset"
    by (simp add: out_def columns_def case_prod_beta comp_def)
  have "median_imputed (snd (dataset ! j)) (snd (out ! j))" if j: "j < length dataset" for j
  proof -
    from j have "dataset ! j \<in> set dataset" by simp
    with assms(2) have "\<not> list_ex is_text (snd (dataset ! j))"
      by (auto simp: numeric_frame_def list_all_iff)
    then have "median_imputed (snd (dataset ! j)) (fill_missing_with_median (snd (dataset ! j)))"
      by (rule fill_missing_median_imputed)
    moreover from j have "snd (out ! j) = fill_missing_with_median (snd (dataset ! j))"
      by (simp add: out_def case_prod_beta)
    ultimately show ?thesis by simp
  qed
  with run cols show ?thesis by blast
qed

theorem impute_fills_with_column_median_witness:
  "distinct (columns [(''age'', [Num 5, NA, Num 1, Num 3, NA]),
                      (''bmi'', [Num 8, NA, Num 1, Num 3, Num 2]),
                      (''sex'', [Num 0, Num 1, Num 1, Num 0, Num 1]),
                      (''lab'', [NA, NA, NA, NA, NA])])
   \<and> numeric_frame [(''age'', [Num 5, NA, Num 1, Num 3, NA]),
                      (''bmi'', [Num 8, NA, Num 1, Num 3, Num 2]),
                      (''sex'', [Num 0, Num 1, Num 1, Num 0, Num 1]),
                      (''lab'', [NA, NA, NA, NA, NA])]
   \<and> impute_dataset [(''age'', [Num 5, NA, Num 1, Num 3, NA]),
                      (''bmi'', [Num 8, NA, Num 1, Num 3, Num 2]),
                      (''sex'', [Num 0, Num 1, Num 1, Num 0, Num 1]),
                      (''lab'', [NA, NA, NA, NA, NA])]
       = Inr [(''age'', [Num 5, Num 3, Num 1, Num 3, Num 3]),
              (''bmi'', [Num 8, Num (5 / 2), Num 1, Num 3, Num 2]),
              (''sex'', [Num 0, Num 1, Num 1, Num 0, Num 1]),
              (''lab'', [NA, NA, NA, NA, NA])]"
proof -
  let ?age = "[Num 5, NA, Num 1, Num 3, NA]"
  let ?bmi = "[Num 8, NA, Num 1, Num 3, Num 2]"
  let ?sex = "[Num 0, Num 1, Num 1, Num 0, Num 1]"
  let ?lab = "[NA, NA, NA, NA, NA]"
  let ?df = "[(''age'', ?age), (''bmi'', ?bmi), (''sex'', ?sex), (''lab'', ?lab)]"
  have d: "distinct (columns ?df)" by (simp add: columns_def)
  have n: "numeric_frame ?df" by (simp add: numeric_frame_def)
  from impute_fills_with_column_median [OF d n] obtain out where
    run: "impute_dataset ?df = Inr out"
    and cols: "columns out = columns ?df"
    and cells: "\<forall>j<length ?df. median_imputed (snd (?df ! j)) (snd (out ! j))"
    by blast
  from cols have shape: "out = [(''age'', snd (out ! 0)), (''bmi'', snd (out ! 1)),
                                (''sex'', snd (out ! 2)), (''lab'', snd (out ! 3))]"
    by (intro frame_of_four) (simp add: columns_def)
  from cells [rule_format, of 0] have age_cells: "median_imputed ?age (snd (out ! 0))"
    by simp
  from cells [rule_format, of 1] have bmi_cells: "median_imputed ?bmi (snd (out ! 1))"
    by simp
  from cells [rule_format, of 2] have sex_cells: "median_imputed ?sex (snd (out ! 2))"
    by simp
  from cells [rule_format, of 3] have lab_cells: "median_imputed ?lab (snd (out ! 3))"
    by simp
  have age: "snd (out ! 0) = [Num 5, Num 3, Num 1, Num 3, Num 3]"
  proof -
    from age_cells have len: "length (snd (out ! 0)) = 5"
      and kept: "snd (out ! 0) ! 0 = Num 5" "snd (out ! 0) ! 2 = Num 1" "snd (out ! 0) ! 3 = Num 3"
      by (simp_all add: median_imputed_def)
    have "\<exists>c\<in>set ?age. c \<noteq> NA" by simp
    with age_cells obtain ys m where sorted: "sorted ys"
      and ms: "mset (map Num ys) = mset (filter (\<lambda>c. c \<noteq> NA) ?age)"
      and m: "m = (if odd (length ys) then ys ! (length ys div 2)
                   else (ys ! (length ys div 2 - 1) + ys ! (length ys div 2)) / 2)"
      and filled: "\<forall>i<length ?age. ?age ! i = NA \<longrightarrow> snd (out ! 0) ! i = Num m"
      unfolding median_imputed_def by blast
    from ms have "mset (map Num ys) = mset (map Num [5, 1, 3])" by simp
    with sorted have "ys = sort [5, 1, 3]" by (rule sorted_values_unique)
    then have "ys = [1, 3, 5]" by simp
    with m have "m = 3" by simp
    moreover from filled have "snd (out ! 0) ! 1 = Num m" "snd (out ! 0) ! 4 = Num m"
      by simp_all
    ultimately show ?thesis using list_of_five [OF len] kept by simp
  qed
  have bmi: "snd (out ! 1) = [Num 8, Num (5 / 2), Num 1, Num 3, Num 2]"
  proof -
    from bmi_cells have len: "length (snd (out ! 1)) = 5"
      and kept: "snd (out ! 1) ! 0 = Num 8" "snd (out ! 1) ! 2 = Num 1" "snd (out ! 1) ! 3 = Num 3"
        "snd (out ! 1) ! 4 = Num 2"
      by (simp_all add: median_imputed_def)
    have "\<exists>c\<in>set ?bmi. c \<noteq> NA" by simp
    with bmi_cells obtain ys m where sorted: "sorted ys"
      and ms: "mset (map Num ys) = mset (filter (\<lambda>c. c \<noteq> NA) ?bmi)"
      and m: "m = (if odd (length ys) then ys ! (length ys div 2)
                   else (ys ! (length ys div 2 - 1) + ys ! (length ys div 2)) / 2)"
      and filled: "\<forall>i<length ?bmi. ?bmi ! i = NA \<longrightarrow> snd (out ! 1) ! i = Num m"
      unfolding median_imputed_def by blast
    from ms have "mset (map Num ys) = mset (map Num [8, 1, 3, 2])" by simp
    with sorted have "ys = sort [8, 1, 3, 2]" by (rule sorted_values_unique)
    then have "ys = [1, 2, 3, 8]" by simp
    with m have "m = 5 / 2" by simp
    moreover from filled have "snd (out ! 1) ! 1 = Num m"
      by simp
    ultimately show ?thesis using list_of_five [OF len] kept by simp
  qed
  from sex_cells have sex: "snd (out ! 2) = ?sex" by (simp add: median_imputed_def)
  from lab_cells have lab: "snd (out ! 3) = ?lab" by (simp add: median_imputed_def)
  from shape age bmi sex lab have "out = [(''age'', [Num 5, Num 3, Num 1, Num 3, Num 3]),
              (''bmi'', [Num 8, Num (5 / 2), Num 1, Num 3, Num 2]),
              (''sex'', ?sex), (''lab'', ?lab)]"
    by simp
  with run d n show ?thesis by simp
qed

text \<open>
  C9: \<^verbatim>\<open>load_dataset\<close> returns what the CSV reader returned (or raises what it
  raised).  The replacement of the string \<open>NA\<close> is computed by
  \<^verbatim>\<open>df.replace\<close> as a new frame, which is dropped.
\<close>

theorem load_dataset_returns_csv_frame:
  "load_dataset lib file_path = read_csv lib file_path"
  by (cases "read_csv lib file_path") (simp_all add: load_dataset_def df_replace_def)

lemma replacement_would_change_frame:
  "fst (df_replace [(''age'', [Str ''NA'', Num 1])] (Str ''NA'') NA False)
     = Some [(''age'', [NA, Num 1])]
   \<and> snd (df_replace [(''age'', [Str ''NA'', Num 1])] (Str ''NA'') NA False)
     = [(''age'', [Str ''NA'', Num 1])]"
  by (simp add: df_replace_def replace_cells_def)

section \<open>Repeated runs\<close>

lemma merge_items_map_of:
  "distinct (map fst items) \<Longrightarrow>
   map_of (merge_items counts items) f
     = (case map_of items f of
          None \<Rightarrow> map_of counts f
        | Some l \<Rightarrow> Some (lookup_values counts f @ l))"
proof (induction items arbitrary: counts)
  case Nil
  then show ?case by simp
next
  case (Cons p items)
  obtain g l where p: "p = (g, l)" by (cases p)
  define counts' where "counts' = AList.update g (lookup_values counts g @ l) counts"
  have step: "merge_items counts (p # items) = merge_items counts' items"
    by (simp add: p counts'_def lookup_values_def split: option.splits)
  from Cons.prems p have notin: "g \<notin> fst ` set items" and d: "distinct (map fst items)"
    by auto
  from notin have none: "map_of items g = None"
    by (simp add: map_of_eq_None_iff)
  have IH: "map_of (merge_items counts' items) f
              = (case map_of items f of
                   None \<Rightarrow> map_of counts' f
                 | Some l \<Rightarrow> Some (lookup_values counts' f @ l))"
    using Cons.IH [OF d] .
  show ?case
  proof (cases "f = g")
    case True
    with IH none step show ?thesis
      by (simp add: p counts'_def update_conv')
  next
    case False
    then have "map_of counts' f = map_of counts f"
      by (simp add: counts'_def update_conv')
    moreover from this have "lookup_values counts' f = lookup_values counts f"
      by (simp add: lookup_values_def)
    ultimately have "(case map_of items f of
                        None \<Rightarrow> map_of counts' f
                      | Some l \<Rightarrow> Some (lookup_values counts' f @ l))
                   = (case map_of items f of
                        None \<Rightarrow> map_of counts f
                      | Some l \<Rightarrow> Some (lookup_values counts f @ l))"
      by (simp split: option.splits)
    moreover have "map_of (p # items) f = map_of items f"
      using False by (simp add: p)
    ultimately show ?thesis
      unfolding step IH by simp
  qed
qed

lemma foldl_merge_items:
  assumes "\<forall>d\<in>set runs. distinct (map fst d) \<and> f \<in> fst ` set d" and "runs \<noteq> []"
  shows "map_of (foldl merge_items counts runs) f
           = Some (lookup_values counts f @ concat (map (\<lambda>d. lookup_values d f) runs))"
  using assms
proof (induction runs arbitrary: counts)
  case Nil
  then show ?case by simp
next
  case (Cons d runs)
  from Cons.prems have dd: "distinct (map fst d)" and fd: "f \<in> fst ` set d" by auto
  from fd obtain l where l: "map_of d f = Some l"
    by (metis domD dom_map_of_conv_image_fst)
  then have ld: "lookup_values d f = l" by (simp add: lookup_values_def)
  have first: "map_of (merge_items counts d) f = Some (lookup_values counts f @ l)"
    using merge_items_map_of [OF dd, of counts f] l by simp
  show ?case
  proof (cases "runs = []")
    case True
    with first ld show ?thesis by simp
  next
    case False
    from Cons.prems have "\<forall>d\<in>set runs. distinct (map fst d) \<and> f \<in> fst ` set d" by simp
    from Cons.IH [OF this False, of "merge_items counts d"] first ld
    show ?thesis by (simp add: lookup_values_def)
  qed
qed

lemma foldl_merge_items_other:
  assumes "\<forall>d\<in>set runs. distinct (map fst d) \<and> f \<notin> fst ` set d"
  shows "map_of (foldl merge_items counts runs) f = map_of counts f"
  using assms
proof (induction runs arbitrary: counts)
  case Nil
  then show ?case by simp
next
  case (Cons d runs)
  then have dd: "distinct (map fst d)" and fd: "map_of d f = None"
    by (auto simp: map_of_eq_None_iff)
  from merge_items_map_of [OF dd, of counts f] fd
  have "map_of (merge_items counts d) f = map_of counts f" by simp
  with Cons show ?case by simp
qed

lemma train_test_split_columns:
  assumes "split_keeps_columns lib"
    and "train_test_split lib X y t s = (Inr (X_a, X_b, y_a, y_b), s')"
  shows "columns X_a = columns X"
proof -
  from assms(2) obtain r' where
    "sk_train_test_split lib (rng s) X y t = Inr ((X_a, X_b, y_a, y_b), r')"
    by (auto simp: train_test_split_def split: sum.splits prod.splits)
  with assms(1) show ?thesis
    unfolding split_keeps_columns_def by blast
qed

lemma single_run_returns:
  assumes keep: "split_keeps_columns lib"
    and load: "load_dataset lib ''responder.csv'' = Inr dataset"
    and pre: "preprocess_dataset lib dataset = Inr (labels, D)"
    and dD: "distinct (columns D)"
    and run: "drop_feature_experiment lib s = (Inr d, s')"
  shows "map fst d = columns D" and "\<forall>f\<in>set (columns D). \<exists>c. map_of d f = Some [c]"
proof -
  from run load pre obtain X_train X_test y_train y_test s1 where
    split: "train_test_split lib D labels 0.2 s = (Inr (X_train, X_test, y_train, y_test), s1)"
    by (auto simp: drop_feature_experiment_def py_bind_def py_lift_def
        split: sum.splits prod.splits)
  from train_test_split_columns [OF keep split] have cols: "columns X_train = columns D" .
  with dD have dX: "distinct (columns X_train)" by simp
  from experiment_returns [OF load pre split run] obtain st' where
    loop: "drop_loop lib X_train y_train (initial_state X_train) s1 = (Inr st', s')"
    and d: "d = feature_drop_iterations st'"
    by blast
  note summary = drop_loop_summary [OF dX loop]
  from final_record(1,2) [OF summary(2,3)] cols d
  show "map fst d = columns D" and "\<forall>f\<in>set (columns D). \<exists>c. map_of d f = Some [c]"
    by simp_all
qed

lemma avg_drop_loop_returns:
  assumes keep: "split_keeps_columns lib"
    and load: "load_dataset lib ''responder.csv'' = Inr dataset"
    and pre: "preprocess_dataset lib dataset = Inr (labels, D)"
    and dD: "distinct (columns D)"
  shows "avg_drop_loop lib n counts s = (Inr agg, s') \<Longrightarrow>
           agg = foldl merge_items counts (experiment_runs lib n s)
         \<and> length (experiment_runs lib n s) = n
         \<and> (\<forall>d\<in>set (experiment_runs lib n s).
               map fst d = columns D
             \<and> (\<forall>f\<in>set (columns D). \<exists>c. map_of d f = Some [c]))"
proof (induction n arbitrary: counts s)
  case 0
  then show ?case by (simp add: py_return_def)
next
  case (Suc n)
  from Suc.prems obtain d s1 where
    run: "drop_feature_experiment lib s = (Inr d, s1)"
    and rest: "avg_drop_loop lib n (merge_items counts d) s1 = (Inr agg, s')"
    by (auto simp: py_bind_def split: sum.splits prod.splits)
  from single_run_returns [OF keep load pre dD run] have
    keys: "map fst d = columns D"
    and vals: "\<forall>f\<in>set (columns D). \<exists>c. map_of d f = Some [c]"
    by blast+
  from Suc.IH [OF rest] have
    agg: "agg = foldl merge_items (merge_items counts d) (experiment_runs lib n s1)"
    and len: "length (experiment_runs lib n s1) = n"
    and all: "\<forall>d\<in>set (experiment_runs lib n s1).
                 map fst d = columns D
               \<and> (\<forall>f\<in>set (columns D). \<exists>c. map_of d f = Some [c])"
    by blast+
  have runs: "experiment_runs lib (Suc n) s = d # experiment_runs lib n s1"
    using run by simp
  show ?case
    unfolding runs using agg len keys vals all by simp
qed

lemma avg_drop_loop_ok:
  assumes "lib_ok lib"
    and "load_dataset lib ''responder.csv'' = Inr dataset"
    and "preprocess_dataset lib dataset = Inr (labels, D)"
    and "distinct (columns D)"
  shows "\<exists>agg s'. avg_drop_loop lib n counts s = (Inr agg, s')"
proof (induction n arbitrary: counts s)
  case 0
  show ?case by (simp add: py_return_def)
next
  case (Suc n)
  from experiment_ok [OF assms, of s] obtain d s1 where
    run: "drop_feature_experiment lib s = (Inr d, s1)"
    by blast
  from Suc.IH [of "merge_items counts d" s1] run show ?case
    by (simp add: py_bind_def)
qed

text \<open>
  C5: with \<open>n_runs = N \<ge> 1\<close> the record that the aggregator returns has exactly the
  original feature names as keys, and the list of a feature is the concatenation, in run
  order, of the one-element lists that the \<open>N\<close> successive runs recorded for it: \<open>N\<close>
  values, none overwritten.
\<close>

theorem aggregator_concatenates_runs:
  assumes "split_keeps_columns lib"
    and "load_dataset lib ''responder.csv'' = Inr dataset"
    and "preprocess_dataset lib dataset = Inr (labels, D)"
    and "distinct (columns D)" and "1 \<le> n_runs"
    and "avg_drop_feature_experiment lib n_runs s = (Inr agg, s')"
  shows "length (experiment_runs lib (nat n_runs) s) = nat n_runs
       \<and> fst ` set agg = set (columns D)
       \<and> (\<forall>f\<in>set (columns D).
             (\<forall>d\<in>set (experiment_runs lib (nat n_runs) s). length (lookup_values d f) = 1)
           \<and> map_of agg f
               = Some (concat (map (\<lambda>d. lookup_values d f)
                                 (experiment_runs lib (nat n_runs) s)))
           \<and> length (lookup_values agg f) = nat n_runs)"
proof -
  define runs where "runs = experiment_runs lib (nat n_runs) s"
  from avg_drop_loop_returns [OF assms(1-4), of "nat n_runs" "[]" s agg s'] assms(6)
  have agg: "agg = foldl merge_items [] runs"
    and len: "length runs = nat n_runs"
    and all: "\<forall>d\<in>set runs. map fst d = columns D
                \<and> (\<forall>f\<in>set (columns D). \<exists>c. map_of d f = Some [c])"
    unfolding avg_drop_feature_experiment_def runs_def by blast+
  from len assms(5) have ne: "runs \<noteq> []" by auto
  have one: "length (lookup_values d f) = 1" if "d \<in> set runs" "f \<in> set (columns D)" for d f
    using all that by (fastforce simp: lookup_values_def)
  have inside: "map_of agg f = Some (concat (map (\<lambda>d. lookup_values d f) runs))"
    if f: "f \<in> set (columns D)" for f
  proof -
    have "\<forall>d\<in>set runs. distinct (map fst d) \<and> f \<in> fst ` set d"
      using all assms(4) f by (metis set_map)
    from foldl_merge_items [OF this ne, of "[]"] show ?thesis
      by (simp add: agg lookup_values_def)
  qed
  have outside: "map_of agg f = None" if f: "f \<notin> set (columns D)" for f
  proof -
    have "\<forall>d\<in>set runs. distinct (map fst d) \<and> f \<notin> fst ` set d"
      using all assms(4) f by (metis set_map)
    from foldl_merge_items_other [OF this, of "[]"] show ?thesis
      by (simp add: agg)
  qed
  have "dom (map_of agg) = set (columns D)"
  proof (rule set_eqI)
    fix x show "x \<in> dom (map_of agg) \<longleftrightarrow> x \<in> set (columns D)"
      using inside [of x] outside [of x] by (cases "x \<in> set (columns D)") auto
  qed
  then have keys: "fst ` set agg = set (columns D)"
    by (simp add: dom_map_of_conv_image_fst)
  have count: "length (lookup_values agg f) = nat n_runs" if f: "f \<in> set (columns D)" for f
  proof -
    have "length (concat (map (\<lambda>d. lookup_values d f) runs)) = length runs"
      using one f by (induction runs) auto
    with inside [OF f] len show ?thesis
      by (simp add: lookup_values_def)
  qed
  from len keys one inside count show ?thesis
    unfolding runs_def by blast
qed

lemma demo_split_keeps_columns: "split_keeps_columns (demo_lib features)"
  by (auto simp: split_keeps_columns_def demo_lib_def columns_def case_prod_beta comp_def)

theorem aggregator_concatenates_runs_witness:
  "split_keeps_columns (demo_lib [''age'', ''sex''])
   \<and> load_dataset (demo_lib [''age'', ''sex'']) ''responder.csv''
       = Inr (demo_table [''age'', ''sex''])
   \<and> preprocess_dataset (demo_lib [''age'', ''sex'']) (demo_table [''age'', ''sex''])
       = Inr (demo_labels, demo_features)
   \<and> distinct (columns demo_features) \<and> (1::int) \<le> 3
   \<and> (\<exists>agg s'. avg_drop_feature_experiment (demo_lib [''age'', ''sex'']) 3 demo_world
                   = (Inr agg, s')
         \<and> fst ` set agg = set (columns demo_features)
         \<and> length (lookup_values agg ''age'') = 3
         \<and> length (lookup_values agg ''sex'') = 3)"
proof -
  have n: "(1::int) \<le> 3" by simp
  have age: "''age'' \<in> set (columns demo_features)"
    and sex: "''sex'' \<in> set (columns demo_features)"
    by (simp_all add: columns_def demo_features_def)
  from avg_drop_loop_ok [OF demo_lib_ok demo_load demo_preprocess demo_distinct, of "nat 3" "[]"
      demo_world]
  obtain agg s' where
    run: "avg_drop_feature_experiment (demo_lib [''age'', ''sex'']) 3 demo_world = (Inr agg, s')"
    unfolding avg_drop_feature_experiment_def by blast
  from aggregator_concatenates_runs
    [OF demo_split_keeps_columns demo_load demo_preprocess demo_distinct n run] age sex
  have "fst ` set agg = set (columns demo_features)"
    and "length (lookup_values agg ''age'') = 3"
    and "length (lookup_values agg ''sex'') = 3"
    by auto
  with run have
    "\<exists>agg s'. avg_drop_feature_experiment (demo_lib [''age'', ''sex'']) 3 demo_world
                   = (Inr agg, s')
         \<and> fst ` set agg = set (columns demo_features)
         \<and> length (lookup_values agg ''age'') = 3
         \<and> length (lookup_values agg ''sex'') = 3"
    by blast
  with demo_split_keeps_columns demo_load demo_preprocess demo_distinct n show ?thesis
    by (intro conjI)
qed

end
